theory Spec2Isabelle
  imports Main
begin

section \<open>Machine arithmetic and arrays\<close>

text \<open>
  Indices, coordinates and the dimension \<open>N\<close> are \<open>size_t\<close> values in the source
  (64 bits); they are natural numbers here, and \<open>size_t\<close> writes out the wrap-around
  of the index expressions.  Cells have the template's arithmetic type \<open>T\<close>
  (\<open>unsigned int\<close> in the program); they only ever hold values between \<open>0\<close> and \<open>N\<close>
  and are natural numbers as well.  The loop counters of the source (\<open>int\<close>, \<open>unsigned\<close>,
  \<open>size_t\<close>) run over index ranges \<open>[0..<N]\<close> and \<open>[1..<N + 1]\<close>; they do not wrap for the
  dimensions the properties of the search are stated for (\<open>N\<close> below \<open>2^31\<close>).
\<close>

definition SIZE_MAX :: nat where
  "SIZE_MAX = 2 ^ 64 - 1"

definition size_t :: "nat \<Rightarrow> nat" where
  "size_t n = n mod 2 ^ 64"

datatype error = OutOfBounds

text \<open>
  A \<open>std::array<T, S>\<close> is a list together with its static extent \<open>S\<close>.  Subscripting
  outside the extent is undefined behaviour in the source (and rejected in a constant
  expression); here it is the error \<open>OutOfBounds\<close>.
\<close>

definition array_read :: "nat \<Rightarrow> 'a list \<Rightarrow> nat \<Rightarrow> error + 'a" where
  "array_read S xs k = (if k < S \<and> k < length xs then Inr (xs ! k) else Inl OutOfBounds)"

definition array_write :: "nat \<Rightarrow> 'a list \<Rightarrow> nat \<Rightarrow> 'a \<Rightarrow> error + 'a list" where
  "array_write S xs k v = (if k < S \<and> k < length xs then Inr (xs[k := v]) else Inl OutOfBounds)"

text \<open>
  The two loop shapes of the source over an index range: a loop that updates a local
  variable, and a loop that returns \<open>false\<close> at the first index whose test fails.
\<close>

primrec for_each :: "(nat \<Rightarrow> 's \<Rightarrow> error + 's) \<Rightarrow> nat list \<Rightarrow> 's \<Rightarrow> error + 's" where
  "for_each body [] s = Inr s"
| "for_each body (i # is) s =
     (case body i s of Inl e \<Rightarrow> Inl e | Inr s' \<Rightarrow> for_each body is s')"

primrec for_all :: "(nat \<Rightarrow> error + bool) \<Rightarrow> nat list \<Rightarrow> error + bool" where
  "for_all test [] = Inr True"
| "for_all test (i # is) =
     (case test i of Inl e \<Rightarrow> Inl e
      | Inr ok \<Rightarrow> if ok then for_all test is else Inr False)"

section \<open>math::isqrt\<close>

text \<open>
  \<open>isqrt\<close> at \<open>T = size_t\<close>, the instance the board uses: \<open>t\<close> runs upwards from \<open>0\<close>
  while \<open>t < n\<close>, and \<open>t * t\<close> is the product in \<open>size_t\<close>.  The increment cannot wrap,
  because \<open>t < n\<close>.
\<close>

function isqrt_loop :: "nat \<Rightarrow> nat \<Rightarrow> nat" where
  "isqrt_loop n t =
     (if t < n then (if size_t (t * t) = n then t else isqrt_loop n (t + 1)) else 0)"
  by pat_completeness auto
termination
  by (relation "measure (\<lambda>(n, t). n - t)") auto

declare isqrt_loop.simps [simp del]

definition isqrt :: "nat \<Rightarrow> nat" where
  "isqrt n = isqrt_loop n 0"

section \<open>GenSudoku\<close>

text \<open>
  The class has one data member, the row-major array \<open>boardState\<close> of \<open>N * N\<close> cells.
  The template parameter \<open>N\<close> is the first argument of every member function.
\<close>

record GenSudoku =
  boardState :: "nat list"

definition cells :: "nat \<Rightarrow> nat" where
  "cells N = size_t (N * N)"

definition idx :: "nat \<Rightarrow> nat \<Rightarrow> nat \<Rightarrow> nat" where
  "idx N x y = size_t (x * N + y)"

definition get :: "nat \<Rightarrow> GenSudoku \<Rightarrow> nat \<Rightarrow> nat \<Rightarrow> error + nat" where
  "get N B x y =
     (if idx N x y \<ge> cells N then Inr 0 else array_read (cells N) (boardState B) (idx N x y))"

text \<open>
  \<open>put\<close> is a non-const member: it assigns to the receiver's array and returns a copy
  of the receiver.  The result is the pair of the receiver after the call and the
  returned board.
\<close>

definition put :: "nat \<Rightarrow> GenSudoku \<Rightarrow> nat \<Rightarrow> nat \<Rightarrow> nat \<Rightarrow> error + (GenSudoku \<times> GenSudoku)" where
  "put N B x y val =
     (case array_write (cells N) (boardState B) (idx N x y) val of
        Inl e \<Rightarrow> Inl e
      | Inr bs \<Rightarrow> Inr (B\<lparr>boardState := bs\<rparr>, B\<lparr>boardState := bs\<rparr>))"

definition side :: "nat \<Rightarrow> nat" where
  "side N = isqrt N"

definition row :: "nat \<Rightarrow> GenSudoku \<Rightarrow> nat \<Rightarrow> error + nat list" where
  "row N B x =
     for_each (\<lambda>y bs.
        case array_read (cells N) (boardState B) (idx N x y) of
          Inl e \<Rightarrow> Inl e
        | Inr v \<Rightarrow> array_write N bs y v)
      [0..<N] (replicate N 0)"

definition col :: "nat \<Rightarrow> GenSudoku \<Rightarrow> nat \<Rightarrow> error + nat list" where
  "col N B y =
     for_each (\<lambda>x bs.
        case array_read (cells N) (boardState B) (idx N x y) of
          Inl e \<Rightarrow> Inl e
        | Inr v \<Rightarrow> array_write N bs x v)
      [0..<N] (replicate N 0)"

definition quadrant :: "nat \<Rightarrow> GenSudoku \<Rightarrow> nat \<Rightarrow> nat \<Rightarrow> error + nat list" where
  "quadrant N B x y =
     for_each (\<lambda>i bs.
        for_each (\<lambda>j bs.
           case array_read (cells N) (boardState B)
                  (size_t (side N * (x * N + y) + (i * N + j))) of
             Inl e \<Rightarrow> Inl e
           | Inr v \<Rightarrow> array_write N bs (size_t (i * side N + j)) v)
         [0..<side N] bs)
      [0..<side N] (replicate N 0)"

text \<open>
  \<open>sectionValid\<close>: the table \<open>positions\<close> has \<open>N + 1\<close> entries, all false at the start;
  a zero cell is skipped, a cell whose entry is already set returns \<open>false\<close>.
\<close>

primrec sectionValid_loop :: "nat \<Rightarrow> nat list \<Rightarrow> bool list \<Rightarrow> error + bool" where
  "sectionValid_loop N [] positions = Inr True"
| "sectionValid_loop N (i # bs) positions =
     (if i = 0 then sectionValid_loop N bs positions
      else case array_read (N + 1) positions i of
             Inl e \<Rightarrow> Inl e
           | Inr seen \<Rightarrow>
               if seen then Inr False
               else (case array_write (N + 1) positions i True of
                       Inl e \<Rightarrow> Inl e
                     | Inr positions' \<Rightarrow> sectionValid_loop N bs positions'))"

definition sectionValid :: "nat \<Rightarrow> nat list \<Rightarrow> error + bool" where
  "sectionValid N bs = sectionValid_loop N bs (replicate (N + 1) False)"

definition rowValid :: "nat \<Rightarrow> GenSudoku \<Rightarrow> nat \<Rightarrow> error + bool" where
  "rowValid N B x = (case row N B x of Inl e \<Rightarrow> Inl e | Inr bs \<Rightarrow> sectionValid N bs)"

definition colValid :: "nat \<Rightarrow> GenSudoku \<Rightarrow> nat \<Rightarrow> error + bool" where
  "colValid N B y = (case col N B y of Inl e \<Rightarrow> Inl e | Inr bs \<Rightarrow> sectionValid N bs)"

definition quadrantValid :: "nat \<Rightarrow> GenSudoku \<Rightarrow> nat \<Rightarrow> nat \<Rightarrow> error + bool" where
  "quadrantValid N B x y =
     (case quadrant N B x y of Inl e \<Rightarrow> Inl e | Inr bs \<Rightarrow> sectionValid N bs)"

text \<open>
  \<open>next\<close> of the source (a keyword here, hence \<open>next_cell\<close>): the first position in
  row-major order whose \<open>get\<close> is zero, or the pair of \<open>SIZE_MAX\<close>.
\<close>

primrec next_y :: "nat \<Rightarrow> GenSudoku \<Rightarrow> nat \<Rightarrow> nat list \<Rightarrow> error + (nat \<times> nat) option" where
  "next_y N B x [] = Inr None"
| "next_y N B x (y # ys) =
     (case get N B x y of
        Inl e \<Rightarrow> Inl e
      | Inr v \<Rightarrow> if v = 0 then Inr (Some (x, y)) else next_y N B x ys)"

primrec next_x :: "nat \<Rightarrow> GenSudoku \<Rightarrow> nat list \<Rightarrow> error + (nat \<times> nat)" where
  "next_x N B [] = Inr (SIZE_MAX, SIZE_MAX)"
| "next_x N B (x # xs) =
     (case next_y N B x [0..<N] of
        Inl e \<Rightarrow> Inl e
      | Inr found \<Rightarrow> (case found of Some p \<Rightarrow> Inr p | None \<Rightarrow> next_x N B xs))"

definition next_cell :: "nat \<Rightarrow> GenSudoku \<Rightarrow> error + (nat \<times> nat)" where
  "next_cell N B = next_x N B [0..<N]"

definition isValid :: "nat \<Rightarrow> GenSudoku \<Rightarrow> error + bool" where
  "isValid N B =
     (case for_all (rowValid N B) [0..<N] of
        Inl e \<Rightarrow> Inl e
      | Inr rows_ok \<Rightarrow>
          if \<not> rows_ok then Inr False
          else (case for_all (colValid N B) [0..<N] of
                  Inl e \<Rightarrow> Inl e
                | Inr cols_ok \<Rightarrow>
                    if \<not> cols_ok then Inr False
                    else for_all (\<lambda>x. for_all (quadrantValid N B x) [0..<side N])
                           [0..<side N]))"

definition isComplete :: "nat \<Rightarrow> GenSudoku \<Rightarrow> error + bool" where
  "isComplete N B =
     for_all (\<lambda>x. for_all (\<lambda>y. case get N B x y of Inl e \<Rightarrow> Inl e | Inr v \<Rightarrow> Inr (v \<noteq> 0))
                     [0..<N])
       [0..<N]"

definition isSolved :: "nat \<Rightarrow> GenSudoku \<Rightarrow> error + bool" where
  "isSolved N B =
     (case isValid N B of
        Inl e \<Rightarrow> Inl e
      | Inr valid \<Rightarrow> if valid then isComplete N B else Inr False)"


section \<open>GenSudoku::solve\<close>

text \<open>
  The number of empty cells of a board: the quantity that decreases along the recursion
  of \<open>solve\<close>.
\<close>

definition zeros :: "GenSudoku \<Rightarrow> nat" where
  "zeros B = count_list (boardState B) 0"

lemma count_list_update:
  "k < length xs \<Longrightarrow>
   count_list (xs[k := v]) a + (if xs ! k = a then 1 else 0) =
   count_list xs a + (if v = a then 1 else 0)"
proof (induction xs arbitrary: k)
  case Nil
  then show ?case by simp
next
  case (Cons x xs)
  show ?case
  proof (cases k)
    case 0
    then show ?thesis by simp
  next
    case (Suc j)
    with Cons.prems Cons.IH [of j] show ?thesis by (auto split: if_splits)
  qed
qed

lemma next_y_found:
  "next_y N B x ys = Inr (Some p) \<Longrightarrow>
   fst p = x \<and> snd p \<in> set ys \<and> get N B x (snd p) = Inr 0"
  by (induction ys) (auto split: sum.splits if_splits)

lemma next_x_found:
  "next_x N B xs = Inr p \<Longrightarrow>
   p = (SIZE_MAX, SIZE_MAX) \<or>
   (fst p \<in> set xs \<and> snd p < N \<and> get N B (fst p) (snd p) = Inr 0)"
proof (induction xs)
  case Nil
  then show ?case by simp
next
  case (Cons x xs)
  show ?case
  proof (cases "next_y N B x [0..<N]")
    case (Inl e)
    with Cons.prems show ?thesis by simp
  next
    case (Inr found)
    show ?thesis
    proof (cases found)
      case None
      with Inr Cons show ?thesis by auto
    next
      case (Some q)
      with Inr Cons.prems have "q = p" by simp
      with Some Inr next_y_found [of N B x "[0..<N]" p] show ?thesis by auto
    qed
  qed
qed

lemma next_cell_found:
  assumes "next_cell N B = Inr (x, y)" and "x \<noteq> SIZE_MAX"
  shows "x < N \<and> y < N \<and> get N B x y = Inr 0"
  using next_x_found [of N B "[0..<N]" "(x, y)"] assms by (auto simp: next_cell_def)

lemma get_zero_cell:
  assumes "get N B x y = Inr 0" and "idx N x y < cells N"
  shows "idx N x y < length (boardState B) \<and> boardState B ! idx N x y = 0"
  using assms by (auto simp: get_def array_read_def split: if_splits)

lemma put_result:
  "put N B x y v = Inr (tmp, ns) \<Longrightarrow>
   idx N x y < cells N \<and> idx N x y < length (boardState B) \<and>
   tmp = ns \<and> ns = B\<lparr>boardState := (boardState B)[idx N x y := v]\<rparr>"
  by (auto simp: put_def array_write_def split: if_splits)

text \<open>
  \<open>solve\<close> and its loop over the candidates \<open>1, ..., N\<close>.  The call
  \<open>GenSudoku(*this).put(x, y, i)\<close> of the source applies \<open>put\<close> to a temporary copy of
  the board: \<open>tmp\<close> is that temporary after the call, \<open>ns\<close> the board \<open>put\<close> returns.
\<close>

function solve :: "nat \<Rightarrow> GenSudoku \<Rightarrow> error + GenSudoku"
  and solve_loop :: "nat \<Rightarrow> GenSudoku \<Rightarrow> nat \<Rightarrow> nat \<Rightarrow> nat list \<Rightarrow> error + GenSudoku"
where
  "solve N B =
     (case isValid N B of
        Inl e \<Rightarrow> Inl e
      | Inr valid \<Rightarrow>
          if \<not> valid then Inr B
          else (case next_cell N B of
                  Inl e \<Rightarrow> Inl e
                | Inr (x, y) \<Rightarrow>
                    if x = SIZE_MAX then Inr B
                    else solve_loop N B x y [1..<N + 1]))"
| "solve_loop N B x y [] = Inr B"
| "solve_loop N B x y (i # is) =
     (case put N B x y i of
        Inl e \<Rightarrow> Inl e
      | Inr (tmp, ns) \<Rightarrow>
          (case solve N ns of
             Inl e \<Rightarrow> Inl e
           | Inr res \<Rightarrow>
               (case isComplete N res of
                  Inl e \<Rightarrow> Inl e
                | Inr complete \<Rightarrow>
                    if \<not> complete then solve_loop N B x y is
                    else (case isValid N res of
                            Inl e \<Rightarrow> Inl e
                          | Inr valid \<Rightarrow>
                              if valid then Inr res else solve_loop N B x y is))))"
  by pat_completeness auto
termination
proof (relation "measures
    [\<lambda>a. case a of
            Inl (N, B) \<Rightarrow> 2 * zeros B + 1
          | Inr (N, B, x, y, is) \<Rightarrow>
              (if idx N x y < cells N \<and> idx N x y < length (boardState B)
               then 2 * count_list ((boardState B)[idx N x y := 1]) 0 +
                    (if 0 \<in> set is then 4 else 2)
               else 0),
     \<lambda>a. case a of Inl (N, B) \<Rightarrow> 0 | Inr (N, B, x, y, is) \<Rightarrow> length is]", goal_cases)
  case 1
  show ?case by simp
next
  case (2 N B valid p x y)
  then have found: "get N B x y = Inr 0"
    using next_cell_found [of N B x y] by simp
  show ?case
  proof (cases "idx N x y < cells N \<and> idx N x y < length (boardState B)")
    case True
    with found have "boardState B ! idx N x y = 0"
      using get_zero_cell [of N B x y] by simp
    with True count_list_update [of "idx N x y" "boardState B" 1 0]
    have "count_list ((boardState B)[idx N x y := 1]) 0 + 1 = zeros B"
      by (simp add: zeros_def)
    with True show ?thesis by simp
  next
    case False
    then show ?thesis by auto
  qed
next
  case (3 N B x y i "is" p tmp ns)
  then have p: "idx N x y < cells N" "idx N x y < length (boardState B)"
    "ns = B\<lparr>boardState := (boardState B)[idx N x y := i]\<rparr>"
    using put_result [of N B x y i tmp ns] by simp_all
  have "i \<noteq> 0 \<Longrightarrow> count_list ((boardState B)[idx N x y := i]) 0 =
      count_list ((boardState B)[idx N x y := 1]) 0"
    and "count_list ((boardState B)[idx N x y := i]) 0 \<le>
      count_list ((boardState B)[idx N x y := 1]) 0 + 1"
    using count_list_update [of "idx N x y" "boardState B" i 0]
      count_list_update [of "idx N x y" "boardState B" 1 0] p(2)
    by (simp_all split: if_splits)
  with p show ?case by (cases "i = 0") (simp_all add: zeros_def)
next
  case 4
  then show ?case by auto
next
  case 5
  then show ?case by auto
qed

declare solve.simps [simp del]

text \<open>Rewrite rules that evaluate the board operations on a concrete board.\<close>

lemma replicate_numeral: "replicate (numeral k) x = x # replicate (pred_numeral k) x"
  by (simp add: numeral_eq_Suc)

lemmas board_eval =
  replicate_numeral upt_conv_Cons SIZE_MAX_def size_t_def cells_def idx_def
  array_read_def array_write_def get_def put_def side_def isqrt_def isqrt_loop.simps
  row_def col_def quadrant_def sectionValid_def rowValid_def colValid_def quadrantValid_def
  isValid_def isComplete_def isSolved_def next_cell_def

section \<open>Cell access: get and put\<close>

text \<open>
  C6.  On a board whose array has its \<open>N * N\<close> cells, \<open>get\<close> never leaves the array, for
  any coordinates: where the linear index \<open>x * N + y\<close> (computed in \<open>size_t\<close>) is at least
  \<open>N * N\<close> it returns the empty-cell value \<open>0\<close>, otherwise the cell stored at that index.
  Where nothing wraps (\<open>N\<close>, \<open>x\<close>, \<open>y\<close> below \<open>2^32\<close>) these are the exact products and sum.
\<close>

theorem get_total:
  assumes "length (boardState B) = cells N"
  shows "get N B x y = Inr (if cells N \<le> idx N x y then 0 else boardState B ! idx N x y)
    \<and> (N < 2 ^ 32 \<and> x < 2 ^ 32 \<and> y < 2 ^ 32 \<longrightarrow>
         get N B x y = Inr (if N * N \<le> x * N + y then 0 else boardState B ! (x * N + y)))"
proof -
  have first: "get N B x y = Inr (if cells N \<le> idx N x y then 0 else boardState B ! idx N x y)"
    using assms by (simp add: get_def array_read_def)
  have "idx N x y = x * N + y \<and> cells N = N * N"
    if small: "N < 2 ^ 32" "x < 2 ^ 32" "y < 2 ^ 32"
  proof -
    have "N * N \<le> 4294967295 * 4294967295"
      by (rule mult_le_mono) (use small in simp_all)
    moreover have "x * N \<le> 4294967295 * 4294967295"
      by (rule mult_le_mono) (use small in simp_all)
    ultimately show ?thesis
      using small by (simp add: idx_def cells_def size_t_def)
  qed
  with first show ?thesis by simp
qed

theorem get_total_witness:
  "get 2 \<lparr>boardState = [1, 2, 0, 1]\<rparr> 1 1 = Inr 1
   \<and> get 2 \<lparr>boardState = [1, 2, 0, 1]\<rparr> 2 0 = Inr 0
   \<and> get 2 \<lparr>boardState = [1, 2, 0, 1]\<rparr> (2 ^ 63) 1 = Inr 2"
  using get_total [of "\<lparr>boardState = [1, 2, 0, 1]\<rparr>" 2 1 1]
    get_total [of "\<lparr>boardState = [1, 2, 0, 1]\<rparr>" 2 2 0]
    get_total [of "\<lparr>boardState = [1, 2, 0, 1]\<rparr>" 2 "2 ^ 63" 1]
  by (simp add: cells_def idx_def size_t_def)

text \<open>
  C10.  \<open>put\<close> has no range check of its own.  On a board of \<open>N * N\<close> cells the write
  stays inside the array exactly when the linear index is below \<open>N * N\<close>; at any other
  coordinates the assignment subscripts the array outside its extent (the error of the
  array write), where \<open>get\<close> at the same coordinates returns \<open>0\<close>.
\<close>

theorem put_no_range_check:
  assumes "length (boardState B) = cells N"
  shows "(idx N x y < cells N \<longrightarrow>
            put N B x y v = Inr (B\<lparr>boardState := (boardState B)[idx N x y := v]\<rparr>,
                                 B\<lparr>boardState := (boardState B)[idx N x y := v]\<rparr>))
    \<and> (cells N \<le> idx N x y \<longrightarrow> put N B x y v = Inl OutOfBounds)
    \<and> (cells N \<le> idx N x y \<longrightarrow> get N B x y = Inr 0)"
  using assms by (simp add: put_def get_def array_write_def)

theorem put_no_range_check_witness:
  "put 2 \<lparr>boardState = [1, 2, 0, 1]\<rparr> 1 0 2 = Inr (\<lparr>boardState = [1, 2, 2, 1]\<rparr>, \<lparr>boardState = [1, 2, 2, 1]\<rparr>)
   \<and> put 2 \<lparr>boardState = [1, 2, 0, 1]\<rparr> 2 0 2 = Inl OutOfBounds
   \<and> get 2 \<lparr>boardState = [1, 2, 0, 1]\<rparr> 2 0 = Inr 0"
  using put_no_range_check [of "\<lparr>boardState = [1, 2, 0, 1]\<rparr>" 2 1 0 2]
    put_no_range_check [of "\<lparr>boardState = [1, 2, 0, 1]\<rparr>" 2 2 0 2]
  by (simp add: cells_def idx_def size_t_def)

text \<open>
  C2, as the source has it.  \<open>put\<close> assigns to the receiver's own array and then returns
  a copy of the receiver: after an in-range call the receiver and the returned board are
  the same board, equal to the receiver before the call except that the cell at
  \<open>(x, y)\<close> holds \<open>v\<close>.  The receiver is therefore changed by the call, as the concrete
  call below shows; \<open>solve\<close> keeps its board because it calls \<open>put\<close> on a temporary copy.
\<close>

theorem put_updates_receiver:
  assumes "length (boardState B) = cells N" and "idx N x y < cells N"
  shows "\<exists>receiver returned.
    put N B x y v = Inr (receiver, returned)
    \<and> receiver = returned
    \<and> length (boardState returned) = length (boardState B)
    \<and> boardState returned ! idx N x y = v
    \<and> get N returned x y = Inr v
    \<and> (\<forall>k < length (boardState B). k \<noteq> idx N x y \<longrightarrow> boardState returned ! k = boardState B ! k)"
  using assms by (simp add: put_def get_def array_write_def array_read_def)

theorem put_updates_receiver_witness:
  "\<exists>receiver returned.
    put 4 \<lparr>boardState = [0, 0, 0, 0, 0, 0, 0, 0, 0, 0, 0, 0, 0, 0, 0, 0]\<rparr> 0 1 3 =
      Inr (receiver, returned)
    \<and> receiver = returned
    \<and> length (boardState returned) = length [0, 0, 0, 0, 0, 0, 0, 0, 0, 0, 0, 0, 0, 0, 0, 0 :: nat]
    \<and> boardState returned ! 1 = 3
    \<and> get 4 returned 0 1 = Inr 3
    \<and> (\<forall>k < length [0, 0, 0, 0, 0, 0, 0, 0, 0, 0, 0, 0, 0, 0, 0, 0 :: nat].
          k \<noteq> 1 \<longrightarrow>
          boardState returned ! k = [0, 0, 0, 0, 0, 0, 0, 0, 0, 0, 0, 0, 0, 0, 0, 0] ! k)"
  using put_updates_receiver
    [of "\<lparr>boardState = [0, 0, 0, 0, 0, 0, 0, 0, 0, 0, 0, 0, 0, 0, 0, 0]\<rparr>" 4 0 1 3]
  by (simp add: cells_def idx_def size_t_def)

theorem put_receiver_counterexample:
  "put 4 \<lparr>boardState = [0, 0, 0, 0, 0, 0, 0, 0, 0, 0, 0, 0, 0, 0, 0, 0]\<rparr> 0 1 3 =
     Inr (\<lparr>boardState = [0, 3, 0, 0, 0, 0, 0, 0, 0, 0, 0, 0, 0, 0, 0, 0]\<rparr>,
          \<lparr>boardState = [0, 3, 0, 0, 0, 0, 0, 0, 0, 0, 0, 0, 0, 0, 0, 0]\<rparr>)
   \<and> \<lparr>boardState = [0, 3, 0, 0, 0, 0, 0, 0, 0, 0, 0, 0, 0, 0, 0, 0]\<rparr> \<noteq>
       \<lparr>boardState = [0, 0, 0, 0, 0, 0, 0, 0, 0, 0, 0, 0, 0, 0, 0, 0]\<rparr>"
  by (simp add: put_def array_write_def cells_def idx_def size_t_def)

section \<open>The contract of isqrt\<close>

lemma isqrt_loop_none:
  "\<forall>s. t \<le> s \<and> s < n \<longrightarrow> size_t (s * s) \<noteq> n \<Longrightarrow> isqrt_loop n t = 0"
proof (induction n t rule: isqrt_loop.induct)
  case (1 n t)
  show ?case
  proof (cases "t < n")
    case True
    with "1.prems" have "size_t (t * t) \<noteq> n" by simp
    moreover from "1.prems" have "\<forall>s. t + 1 \<le> s \<and> s < n \<longrightarrow> size_t (s * s) \<noteq> n" by simp
    ultimately show ?thesis
      using True "1.IH" by (subst isqrt_loop.simps) simp
  next
    case False
    then show ?thesis by (subst isqrt_loop.simps) simp
  qed
qed

lemma isqrt_loop_least:
  "t \<le> s \<Longrightarrow> s < n \<Longrightarrow> size_t (s * s) = n \<Longrightarrow>
   t \<le> isqrt_loop n t \<and> isqrt_loop n t \<le> s \<and> size_t (isqrt_loop n t * isqrt_loop n t) = n"
proof (induction n t rule: isqrt_loop.induct)
  case (1 n t)
  from "1.prems" have lt: "t < n" by simp
  show ?case
  proof (cases "size_t (t * t) = n")
    case True
    with lt have "isqrt_loop n t = t" by (subst isqrt_loop.simps) simp
    with True "1.prems" show ?thesis by simp
  next
    case False
    with "1.prems" have "t \<noteq> s" by auto
    with "1.prems" have "t + 1 \<le> s" by simp
    from "1.IH" [OF lt False this "1.prems"(2,3)]
    have "t + 1 \<le> isqrt_loop n (t + 1) \<and> isqrt_loop n (t + 1) \<le> s \<and>
      size_t (isqrt_loop n (t + 1) * isqrt_loop n (t + 1)) = n" .
    moreover from lt False have "isqrt_loop n t = isqrt_loop n (t + 1)"
      by (subst isqrt_loop.simps) simp
    ultimately show ?thesis by simp
  qed
qed

text \<open>
  What \<open>isqrt\<close> computes.  If some \<open>t\<close> in \<open>[0, n)\<close> satisfies the source's test
  \<open>t * t == n\<close> (a product in \<open>size_t\<close>), the result is such a \<open>t\<close>; otherwise it is \<open>0\<close>.
  For \<open>n\<close> up to \<open>2^32\<close> no product wraps and the same holds with the exact product.
\<close>

theorem isqrt_contract:
  "((\<exists>t<n. size_t (t * t) = n) \<longrightarrow> isqrt n < n \<and> size_t (isqrt n * isqrt n) = n)
   \<and> (\<not> (\<exists>t<n. size_t (t * t) = n) \<longrightarrow> isqrt n = 0)
   \<and> (n \<le> 2 ^ 32 \<longrightarrow>
        ((\<exists>t<n. t * t = n) \<longrightarrow> isqrt n < n \<and> isqrt n * isqrt n = n)
        \<and> (\<not> (\<exists>t<n. t * t = n) \<longrightarrow> isqrt n = 0))"
proof -
  have found: "isqrt n < n \<and> size_t (isqrt n * isqrt n) = n" if "s < n" "size_t (s * s) = n" for s
    using isqrt_loop_least [of 0 s n] that by (simp add: isqrt_def)
  have none: "isqrt n = 0" if "\<not> (\<exists>t<n. size_t (t * t) = n)"
    using isqrt_loop_none [of 0 n] that by (simp add: isqrt_def)
  have exact: "size_t (t * t) = t * t" if "t < n" "n \<le> 2 ^ 32" for t
  proof -
    from that have "t \<le> 4294967295" by simp
    then have "t * t \<le> 4294967295 * 4294967295" by (intro mult_le_mono)
    then show ?thesis by (simp add: size_t_def)
  qed
  have small: "((\<exists>t<n. t * t = n) \<longrightarrow> isqrt n < n \<and> isqrt n * isqrt n = n)
        \<and> (\<not> (\<exists>t<n. t * t = n) \<longrightarrow> isqrt n = 0)" if le: "n \<le> 2 ^ 32"
  proof (cases "\<exists>t<n. t * t = n")
    case True
    then obtain t where t: "t < n" "t * t = n" by blast
    with exact [OF t(1) le] have "size_t (t * t) = n" by simp
    from found [OF t(1) this] have r: "isqrt n < n" "size_t (isqrt n * isqrt n) = n" by simp_all
    with exact [OF r(1) le] True show ?thesis by simp
  next
    case False
    have "\<not> (\<exists>t<n. size_t (t * t) = n)"
    proof
      assume "\<exists>t<n. size_t (t * t) = n"
      then obtain t where t: "t < n" "size_t (t * t) = n" by blast
      with exact [OF t(1) le] have "t * t = n" by simp
      with t(1) False show False by blast
    qed
    with none False show ?thesis by blast
  qed
  from found none small show ?thesis by blast
qed

theorem isqrt_contract_witness:
  "isqrt 9 < 9 \<and> size_t (isqrt 9 * isqrt 9) = 9 \<and> isqrt 9 * isqrt 9 = 9 \<and> isqrt 8 = 0 \<and> isqrt 1 = 0"
proof -
  have a: "\<exists>t<9. size_t (t * t) = (9::nat)"
    by (rule exI [of _ 3]) (simp add: size_t_def)
  have b: "\<exists>t<9. t * t = (9::nat)"
    by (rule exI [of _ 3]) simp
  have sq: "t * t \<noteq> 8" for t :: nat
  proof
    assume e: "t * t = 8"
    have "t < 3 \<or> 3 \<le> t" by arith
    then show False
    proof
      assume "t < 3"
      then have "t = 0 \<or> t = 1 \<or> t = 2" by arith
      with e show False by auto
    next
      assume "3 \<le> t"
      then have "3 * 3 \<le> t * t" by (intro mult_le_mono)
      with e show False by simp
    qed
  qed
  then have c: "\<not> (\<exists>t<8. t * t = (8::nat))" by blast
  have d: "\<not> (\<exists>t<1. t * t = (1::nat))" by simp
  from isqrt_contract [of 9] a b isqrt_contract [of 8] c isqrt_contract [of 1] d
  show ?thesis by (simp add: size_t_def)
qed


lemma not_square_8589934593: "t * t \<noteq> (8589934593::nat)"
proof
  assume e: "t * t = 8589934593"
  have "t \<le> 92681 \<or> 92682 \<le> t" by arith
  then show False
  proof
    assume "t \<le> 92681"
    then have "t * t \<le> 92681 * 92681" by (intro mult_le_mono)
    with e show False by simp
  next
    assume "92682 \<le> t"
    then have "92682 * 92682 \<le> t * t" by (intro mult_le_mono)
    with e show False by simp
  qed
qed

text \<open>
  C5.  Beyond \<open>2^32\<close> the documented contract of \<open>isqrt\<close> (the root \<open>t\<close> with
  \<open>t * t = n\<close> if there is one in \<open>[0, n)\<close>, and \<open>0\<close> otherwise) does not hold: the product
  \<open>t * t\<close> wraps in \<open>size_t\<close>.  The number \<open>2^33 + 1 = 8589934593\<close> is not a square, and
  \<open>isqrt\<close> returns \<open>2^32 + 1 = 4294967297\<close> for it, not \<open>0\<close>.
\<close>

theorem isqrt_wraps:
  "isqrt 8589934593 = 4294967297
   \<and> 4294967297 * 4294967297 \<noteq> (8589934593::nat)
   \<and> \<not> (\<exists>t::nat. t * t = 8589934593)
   \<and> size_t (4294967297 * 4294967297) = 8589934593"
proof -
  let ?n = "8589934593::nat" and ?t = "4294967297::nat"
  have wrap: "size_t (?t * ?t) = ?n" by (simp add: size_t_def)
  from isqrt_loop_least [of 0 ?t ?n] wrap
  have r: "isqrt ?n \<le> ?t" "size_t (isqrt ?n * isqrt ?n) = ?n"
    by (simp_all add: isqrt_def)
  have "isqrt ?n = ?t"
  proof (rule ccontr)
    assume "isqrt ?n \<noteq> ?t"
    with r(1) have "isqrt ?n \<le> 4294967296" by simp
    then have "isqrt ?n = 4294967296 \<or> isqrt ?n \<le> 4294967295" by arith
    then show False
    proof
      assume "isqrt ?n = 4294967296"
      with r(2) show False by (simp add: size_t_def)
    next
      assume "isqrt ?n \<le> 4294967295"
      then have "isqrt ?n * isqrt ?n \<le> 4294967295 * 4294967295" by (intro mult_le_mono)
      then have "size_t (isqrt ?n * isqrt ?n) = isqrt ?n * isqrt ?n"
        by (simp add: size_t_def)
      with r(2) not_square_8589934593 [of "isqrt ?n"] show False by simp
    qed
  qed
  with wrap not_square_8589934593 show ?thesis by simp
qed

section \<open>Properties of solve\<close>

text \<open>
  C3.  A board that \<open>isValid\<close> rejects is returned by \<open>solve\<close> as it is, with no cell
  filled.  The result is an ordinary board value, not an error; it is recognised as a
  failure only because \<open>isSolved\<close> is false on it.
\<close>

theorem solve_invalid_unchanged:
  assumes "isValid N B = Inr False"
  shows "solve N B = Inr B \<and> isSolved N B = Inr False"
  using assms by (simp add: solve.simps isSolved_def)

theorem solve_invalid_unchanged_witness:
  "solve 9 \<lparr>boardState =
     [5, 5, 0, 0, 0, 0, 0, 0, 0,
      0, 0, 0, 0, 0, 0, 0, 0, 0,
      0, 0, 0, 0, 0, 0, 0, 0, 0,
      0, 0, 0, 0, 0, 0, 0, 0, 0,
      0, 0, 0, 0, 0, 0, 0, 0, 0,
      0, 0, 0, 0, 0, 0, 0, 0, 0,
      0, 0, 0, 0, 0, 0, 0, 0, 0,
      0, 0, 0, 0, 0, 0, 0, 0, 0,
      0, 0, 0, 0, 0, 0, 0, 0, 0]\<rparr> =
   Inr \<lparr>boardState =
     [5, 5, 0, 0, 0, 0, 0, 0, 0,
      0, 0, 0, 0, 0, 0, 0, 0, 0,
      0, 0, 0, 0, 0, 0, 0, 0, 0,
      0, 0, 0, 0, 0, 0, 0, 0, 0,
      0, 0, 0, 0, 0, 0, 0, 0, 0,
      0, 0, 0, 0, 0, 0, 0, 0, 0,
      0, 0, 0, 0, 0, 0, 0, 0, 0,
      0, 0, 0, 0, 0, 0, 0, 0, 0,
      0, 0, 0, 0, 0, 0, 0, 0, 0]\<rparr>"
proof -
  let ?B = "\<lparr>boardState =
     [5, 5, 0, 0, 0, 0, 0, 0, 0,
      0, 0, 0, 0, 0, 0, 0, 0, 0,
      0, 0, 0, 0, 0, 0, 0, 0, 0,
      0, 0, 0, 0, 0, 0, 0, 0, 0,
      0, 0, 0, 0, 0, 0, 0, 0, 0,
      0, 0, 0, 0, 0, 0, 0, 0, 0,
      0, 0, 0, 0, 0, 0, 0, 0, 0,
      0, 0, 0, 0, 0, 0, 0, 0, 0,
      0, 0, 0, 0, 0, 0, 0, 0, 0 :: nat]\<rparr>"
  have "isValid 9 ?B = Inr False"
    by (simp add: board_eval)
  from solve_invalid_unchanged [OF this] show ?thesis by simp
qed

section \<open>Validity of a section\<close>

text \<open>
  The property \<open>sectionValid\<close> computes: the non-zero entries of the section are
  pairwise different.
\<close>

definition section_ok :: "nat list \<Rightarrow> bool" where
  "section_ok bs = distinct (filter (\<lambda>v. v \<noteq> 0) bs)"

lemma sectionValid_loop_eq:
  "\<forall>v \<in> set bs. v \<le> N \<Longrightarrow> length positions = N + 1 \<Longrightarrow>
   sectionValid_loop N bs positions =
     Inr (section_ok bs \<and> (\<forall>v \<in> set bs. v \<noteq> 0 \<longrightarrow> \<not> positions ! v))"
proof (induction bs arbitrary: positions)
  case Nil
  then show ?case by (simp add: section_ok_def)
next
  case (Cons i bs)
  show ?case
  proof (cases "i = 0")
    case True
    with Cons show ?thesis by (simp add: section_ok_def)
  next
    case False
    from Cons.prems have i: "i < N + 1" "i < length positions" by simp_all
    show ?thesis
    proof (cases "positions ! i")
      case True
      with False i show ?thesis by (simp add: array_read_def)
    next
      case seen: False
      let ?p = "positions[i := True]"
      have len: "length ?p = N + 1" using Cons.prems by simp
      have rest: "\<forall>v \<in> set bs. v \<le> N" using Cons.prems by simp
      have nth: "?p ! v = (v = i \<or> positions ! v)" if "v \<le> N" for v
        using that Cons.prems(2) by (cases "v = i") simp_all
      have "(\<forall>v \<in> set bs. v \<noteq> 0 \<longrightarrow> \<not> ?p ! v) =
            (i \<notin> set bs \<and> (\<forall>v \<in> set bs. v \<noteq> 0 \<longrightarrow> \<not> positions ! v))"
        using rest nth False by auto
      with Cons.IH [OF rest len] False seen i show ?thesis
        by (auto simp: array_read_def array_write_def section_ok_def)
    qed
  qed
qed

lemma sectionValid_eq:
  assumes "\<forall>v \<in> set bs. v \<le> N"
  shows "sectionValid N bs = Inr (section_ok bs)"
proof -
  define positions where "positions = replicate (N + 1) False"
  have len: "length positions = N + 1"
    by (simp add: positions_def)
  have "\<not> positions ! v" if "v \<in> set bs" for v
  proof -
    from assms that have "v < N + 1" by auto
    then show ?thesis unfolding positions_def by (simp only: nth_replicate) simp
  qed
  with sectionValid_loop_eq [OF assms len] have "sectionValid_loop N bs positions = Inr (section_ok bs)"
    by auto
  then show ?thesis
    by (simp only: sectionValid_def positions_def)
qed

lemma count_list_filter:
  "count_list (filter P xs) v = (if P v then count_list xs v else 0)"
  by (induction xs) auto

lemma count_list_zero_iff: "count_list xs v = 0 \<longleftrightarrow> v \<notin> set xs"
  by (induction xs) auto

lemma distinct_count_list: "distinct xs \<longleftrightarrow> (\<forall>v. count_list xs v \<le> 1)"
proof (induction xs)
  case Nil
  show ?case by simp
next
  case (Cons x xs)
  show ?case
  proof
    assume d: "distinct (x # xs)"
    then have "count_list xs x = 0" by (simp add: count_list_zero_iff)
    with d Cons show "\<forall>v. count_list (x # xs) v \<le> 1" by auto
  next
    assume c: "\<forall>v. count_list (x # xs) v \<le> 1"
    then have "count_list (x # xs) x \<le> 1" by blast
    then have "x \<notin> set xs" by (simp add: count_list_zero_iff [symmetric])
    moreover have "count_list xs v \<le> 1" for v
      using c [rule_format, of v] by (simp split: if_splits)
    ultimately show "distinct (x # xs)" using Cons by simp
  qed
qed

lemma section_ok_count:
  "section_ok bs \<longleftrightarrow> \<not> (\<exists>v. v \<noteq> 0 \<and> 2 \<le> count_list bs v)"
proof -
  have "section_ok bs \<longleftrightarrow> (\<forall>v. v \<noteq> 0 \<longrightarrow> count_list bs v \<le> 1)"
    by (simp add: section_ok_def distinct_count_list count_list_filter)
  also have "\<dots> \<longleftrightarrow> \<not> (\<exists>v. v \<noteq> 0 \<and> 2 \<le> count_list bs v)"
  proof -
    have "n \<le> 1 \<longleftrightarrow> \<not> 2 \<le> n" for n :: nat by arith
    then show ?thesis by (simp only:) blast
  qed
  finally show ?thesis .
qed

text \<open>
  C4.  On a section whose entries lie between \<open>0\<close> and \<open>N\<close>, \<open>sectionValid\<close> returns
  \<open>false\<close> exactly when some non-zero value occurs at least twice in it, and \<open>true\<close>
  otherwise.  Zero entries are skipped: the section of \<open>N\<close> zeros is valid.
\<close>

theorem sectionValid_iff_duplicate:
  assumes "length S = N" and "\<forall>v \<in> set S. v \<le> N"
  shows "(sectionValid N S = Inr False \<longleftrightarrow> (\<exists>v. v \<noteq> 0 \<and> 2 \<le> count_list S v))
    \<and> (sectionValid N S = Inr True \<longleftrightarrow> \<not> (\<exists>v. v \<noteq> 0 \<and> 2 \<le> count_list S v))
    \<and> sectionValid N (replicate N 0) = Inr True"
proof -
  have "sectionValid N (replicate N 0) = Inr (section_ok (replicate N 0))"
    by (rule sectionValid_eq) simp
  moreover have "section_ok (replicate N 0)"
    by (simp add: section_ok_def)
  ultimately show ?thesis
    using sectionValid_eq [OF assms(2)] section_ok_count [of S] by simp
qed

theorem sectionValid_iff_duplicate_witness:
  "sectionValid 4 [3, 0, 3, 0] = Inr False \<and> 2 \<le> count_list [3, 0, 3, 0 :: nat] 3
   \<and> sectionValid 4 [0, 4, 0, 1] = Inr True \<and> sectionValid 4 (replicate 4 0) = Inr True"
proof -
  have a: "length [3, 0, 3, 0 :: nat] = 4" "\<forall>v \<in> set [3, 0, 3, 0 :: nat]. v \<le> 4" by simp_all
  have b: "length [0, 4, 0, 1 :: nat] = 4" "\<forall>v \<in> set [0, 4, 0, 1 :: nat]. v \<le> 4" by simp_all
  have c: "\<exists>v::nat. v \<noteq> 0 \<and> 2 \<le> count_list [3, 0, 3, 0] v"
    by (rule exI [of _ 3]) simp
  have d: "\<not> (\<exists>v::nat. v \<noteq> 0 \<and> 2 \<le> count_list [0, 4, 0, 1] v)"
    by auto
  from sectionValid_iff_duplicate [OF a] c sectionValid_iff_duplicate [OF b] d
  show ?thesis by simp
qed

section \<open>Solving a solved board\<close>

lemma for_all_True_iff:
  "for_all test is = Inr True \<longleftrightarrow> (\<forall>i \<in> set is. test i = Inr True)"
  by (induction "is") (auto split: sum.splits)

lemma isComplete_cells:
  assumes "isComplete N B = Inr True" and "x < N" and "y < N"
  shows "\<exists>v. get N B x y = Inr v \<and> v \<noteq> 0"
proof -
  from assms(1,2) have "for_all (\<lambda>y. case get N B x y of Inl e \<Rightarrow> Inl e | Inr v \<Rightarrow> Inr (v \<noteq> 0)) [0..<N] = Inr True"
    by (simp add: isComplete_def for_all_True_iff)
  with assms(3) have "(case get N B x y of Inl e \<Rightarrow> Inl e | Inr v \<Rightarrow> Inr (v \<noteq> 0)) = Inr True"
    by (simp add: for_all_True_iff)
  then show ?thesis by (cases "get N B x y") simp_all
qed

lemma next_y_none:
  "\<forall>y \<in> set ys. \<exists>v. get N B x y = Inr v \<and> v \<noteq> 0 \<Longrightarrow> next_y N B x ys = Inr None"
  by (induction ys) auto

lemma next_x_none:
  "\<forall>x \<in> set xs. next_y N B x [0..<N] = Inr None \<Longrightarrow> next_x N B xs = Inr (SIZE_MAX, SIZE_MAX)"
  by (induction xs) auto

lemma next_cell_complete:
  assumes "isComplete N B = Inr True"
  shows "next_cell N B = Inr (SIZE_MAX, SIZE_MAX)"
proof -
  have "next_y N B x [0..<N] = Inr None" if "x < N" for x
    using isComplete_cells [OF assms that] by (intro next_y_none) simp
  then show ?thesis
    unfolding next_cell_def by (intro next_x_none) simp
qed

lemma solve_solved:
  assumes "isValid N B = Inr True" and "isComplete N B = Inr True"
  shows "solve N B = Inr B"
  using assms next_cell_complete [OF assms(2)] by (simp add: solve.simps)

text \<open>
  C8.  On a board that \<open>isSolved\<close> accepts, \<open>solve\<close> finds no empty cell and returns
  the board itself; solving the result again therefore changes nothing.
\<close>

theorem solve_idempotent_on_solved:
  assumes "isSolved N B = Inr True"
  shows "solve N B = Inr B
    \<and> (case solve N B of Inl e \<Rightarrow> Inl e | Inr R \<Rightarrow> solve N R) = solve N B"
proof -
  from assms have "isValid N B = Inr True \<and> isComplete N B = Inr True"
    by (auto simp: isSolved_def split: sum.splits if_splits)
  then have "solve N B = Inr B" by (simp add: solve_solved)
  then show ?thesis by simp
qed

theorem solve_idempotent_on_solved_witness:
  "solve 9 \<lparr>boardState =
     [5, 3, 4, 6, 7, 8, 9, 1, 2,
      6, 7, 2, 1, 9, 5, 3, 4, 8,
      1, 9, 8, 3, 4, 2, 5, 6, 7,
      8, 5, 9, 7, 6, 1, 4, 2, 3,
      4, 2, 6, 8, 5, 3, 7, 9, 1,
      7, 1, 3, 9, 2, 4, 8, 5, 6,
      9, 6, 1, 5, 3, 7, 2, 8, 4,
      2, 8, 7, 4, 1, 9, 6, 3, 5,
      3, 4, 5, 2, 8, 6, 1, 7, 9]\<rparr> =
   Inr \<lparr>boardState =
     [5, 3, 4, 6, 7, 8, 9, 1, 2,
      6, 7, 2, 1, 9, 5, 3, 4, 8,
      1, 9, 8, 3, 4, 2, 5, 6, 7,
      8, 5, 9, 7, 6, 1, 4, 2, 3,
      4, 2, 6, 8, 5, 3, 7, 9, 1,
      7, 1, 3, 9, 2, 4, 8, 5, 6,
      9, 6, 1, 5, 3, 7, 2, 8, 4,
      2, 8, 7, 4, 1, 9, 6, 3, 5,
      3, 4, 5, 2, 8, 6, 1, 7, 9]\<rparr>"
proof -
  let ?B = "\<lparr>boardState =
     [5, 3, 4, 6, 7, 8, 9, 1, 2,
      6, 7, 2, 1, 9, 5, 3, 4, 8,
      1, 9, 8, 3, 4, 2, 5, 6, 7,
      8, 5, 9, 7, 6, 1, 4, 2, 3,
      4, 2, 6, 8, 5, 3, 7, 9, 1,
      7, 1, 3, 9, 2, 4, 8, 5, 6,
      9, 6, 1, 5, 3, 7, 2, 8, 4,
      2, 8, 7, 4, 1, 9, 6, 3, 5,
      3, 4, 5, 2, 8, 6, 1, 7, 9 :: nat]\<rparr>"
  have "isSolved 9 ?B = Inr True"
    by (simp add: board_eval)
  from solve_idempotent_on_solved [OF this] show ?thesis by simp
qed

section \<open>What solve returns\<close>

text \<open>
  \<open>keeps_clues B R\<close>: the board \<open>R\<close> has the cells of \<open>B\<close> wherever \<open>B\<close> is not empty.
\<close>

definition keeps_clues :: "GenSudoku \<Rightarrow> GenSudoku \<Rightarrow> bool" where
  "keeps_clues B R \<longleftrightarrow>
     length (boardState R) = length (boardState B) \<and>
     (\<forall>k < length (boardState B). boardState B ! k \<noteq> 0 \<longrightarrow> boardState R ! k = boardState B ! k)"

lemma keeps_clues_refl: "keeps_clues B B"
  by (simp add: keeps_clues_def)

lemma keeps_clues_trans: "keeps_clues A B \<Longrightarrow> keeps_clues B C \<Longrightarrow> keeps_clues A C"
  by (auto simp: keeps_clues_def)

lemma put_keeps_clues:
  assumes "get N B x y = Inr 0" and "put N B x y i = Inr (tmp, ns)"
  shows "keeps_clues B ns"
proof -
  from put_result [OF assms(2)] have p: "idx N x y < cells N"
    "ns = B\<lparr>boardState := (boardState B)[idx N x y := i]\<rparr>" by simp_all
  from get_zero_cell [OF assms(1) p(1)] have "boardState B ! idx N x y = 0" by simp
  then have "(boardState B)[idx N x y := i] ! k = boardState B ! k"
    if "boardState B ! k \<noteq> 0" for k
    using that by (cases "k = idx N x y") simp_all
  with p(2) show ?thesis by (simp add: keeps_clues_def)
qed

text \<open>The branches of \<open>solve\<close>, one equation each.\<close>

lemma solve_error:
  "isValid N B = Inl e \<Longrightarrow> solve N B = Inl e"
  "isValid N B = Inr True \<Longrightarrow> next_cell N B = Inl e \<Longrightarrow> solve N B = Inl e"
  by (subst solve.simps, simp)+

lemma solve_stop:
  "isValid N B = Inr False \<Longrightarrow> solve N B = Inr B"
  "isValid N B = Inr True \<Longrightarrow> next_cell N B = Inr (SIZE_MAX, y) \<Longrightarrow> solve N B = Inr B"
  by (subst solve.simps, simp)+

lemma solve_search:
  "isValid N B = Inr True \<Longrightarrow> next_cell N B = Inr (x, y) \<Longrightarrow> x \<noteq> SIZE_MAX \<Longrightarrow>
   solve N B = solve_loop N B x y [1..<N + 1]"
  by (subst solve.simps) simp

lemma solve_result:
  "\<forall>R. solve N B = Inr R \<longrightarrow>
     keeps_clues B R \<and> (R = B \<or> (isComplete N R = Inr True \<and> isValid N R = Inr True))"
  "\<forall>R. get N B x y = Inr 0 \<longrightarrow> solve_loop N B x y is = Inr R \<longrightarrow>
     keeps_clues B R \<and> (R = B \<or> (isComplete N R = Inr True \<and> isValid N R = Inr True))"
proof (induction N B and N B x y "is" rule: solve_solve_loop.induct)
  case (1 N B)
  show ?case
  proof (intro allI impI)
    fix R assume R: "solve N B = Inr R"
    show "keeps_clues B R \<and> (R = B \<or> (isComplete N R = Inr True \<and> isValid N R = Inr True))"
    proof (cases "isValid N B")
      case (Inl e)
      with R solve_error(1) [of N B e] show ?thesis by simp
    next
      case valid: (Inr v)
      show ?thesis
      proof (cases v)
        case False
        with valid R solve_stop(1) [of N B] show ?thesis by (simp add: keeps_clues_refl)
      next
        case True
        show ?thesis
        proof (cases "next_cell N B")
          case (Inl e)
          with valid True R solve_error(2) [of N B e] show ?thesis by simp
        next
          case (Inr p)
          obtain x y where p: "p = (x, y)" by (cases p)
          show ?thesis
          proof (cases "x = SIZE_MAX")
            case sentinel: True
            with valid True Inr p R solve_stop(2) [of N B y] show ?thesis
              by (simp add: keeps_clues_refl)
          next
            case False
            from Inr p False have g: "get N B x y = Inr 0"
              using next_cell_found [of N B x y] by simp
            from valid True Inr p False R solve_search [of N B x y]
            have "solve_loop N B x y [1..<N + 1] = Inr R" by simp
            moreover have "\<forall>R. get N B x y = Inr 0 \<longrightarrow> solve_loop N B x y [1..<N + 1] = Inr R \<longrightarrow>
                keeps_clues B R \<and> (R = B \<or> (isComplete N R = Inr True \<and> isValid N R = Inr True))"
              by (rule "1.IH" [OF valid _ Inr p [symmetric] False]) (simp add: True)
            ultimately show ?thesis using g by blast
          qed
        qed
      qed
    qed
  qed
next
  case (2 N B x y)
  show ?case by (simp add: keeps_clues_refl)
next
  case (3 N B x y i "is")
  show ?case
  proof (intro allI impI)
    fix R assume g: "get N B x y = Inr 0" and R: "solve_loop N B x y (i # is) = Inr R"
    show "keeps_clues B R \<and> (R = B \<or> (isComplete N R = Inr True \<and> isValid N R = Inr True))"
    proof (cases "put N B x y i")
      case (Inl e)
      with R show ?thesis by simp
    next
      case putq: (Inr q)
      obtain tmp ns where q: "q = (tmp, ns)" by (cases q)
      from putq q have put: "put N B x y i = Inr (tmp, ns)" by simp
      show ?thesis
      proof (cases "solve N ns")
        case (Inl e)
        with put R show ?thesis by simp
      next
        case res: (Inr res)
        from "3.IH"(1) [OF putq q [symmetric]] res
        have keep: "keeps_clues ns res" by simp
        from put_keeps_clues [OF g put] keep have kres: "keeps_clues B res"
          by (rule keeps_clues_trans)
        show ?thesis
        proof (cases "isComplete N res")
          case (Inl e)
          with put res R show ?thesis by simp
        next
          case c: (Inr complete)
          show ?thesis
          proof (cases complete)
            case False
            with put res c R have "solve_loop N B x y is = Inr R" by simp
            with "3.IH"(2) [OF putq q [symmetric] res c] False g show ?thesis by simp
          next
            case True
            show ?thesis
            proof (cases "isValid N res")
              case (Inl e)
              with put res c True R show ?thesis by simp
            next
              case v: (Inr valid)
              show ?thesis
              proof (cases valid)
                case True
                with put res c \<open>complete\<close> v R have "R = res" by simp
                with kres c \<open>complete\<close> v True show ?thesis by simp
              next
                case False
                with put res c \<open>complete\<close> v R have "solve_loop N B x y is = Inr R" by simp
                with "3.IH"(3) [OF putq q [symmetric] res c _ v] \<open>complete\<close> False g show ?thesis by simp
              qed
            qed
          qed
        qed
      qed
    qed
  qed
qed

section \<open>Well-formed boards and what the board functions compute on them\<close>

text \<open>
  A well-formed board of dimension \<open>N\<close>: the array has its \<open>N * N\<close> cells and every
  cell lies between \<open>0\<close> and \<open>N\<close>.  The dimension is below \<open>2^31\<close>, so that no loop
  counter of the source (\<open>int\<close>, \<open>unsigned\<close>) and no index computation wraps.
\<close>

definition wf_board :: "nat \<Rightarrow> GenSudoku \<Rightarrow> bool" where
  "wf_board N B \<longleftrightarrow>
     N < 2 ^ 31 \<and> length (boardState B) = N * N \<and> (\<forall>v \<in> set (boardState B). v \<le> N)"

lemma small_square:
  fixes N :: nat
  assumes "N < 2 ^ 31"
  shows "N * N < 2 ^ 64"
proof -
  from assms have "N \<le> 2147483648" by simp
  then have "N * N \<le> 2147483648 * 2147483648" by (intro mult_le_mono)
  then show ?thesis by simp
qed

lemma cell_index:
  fixes N :: nat
  assumes "x < N" and "y < N"
  shows "x * N + y < N * N"
proof -
  from assms have "x * N + y < x * N + N" by simp
  also have "\<dots> = (x + 1) * N" by simp
  also from assms have "\<dots> \<le> N * N" by (intro mult_le_mono) simp_all
  finally show ?thesis .
qed

lemma cells_small: "N < 2 ^ 31 \<Longrightarrow> cells N = N * N"
  using small_square [of N] by (simp add: cells_def size_t_def)

lemma size_t_small: "k < N * N \<Longrightarrow> N < 2 ^ 31 \<Longrightarrow> size_t k = k"
  using small_square [of N] by (simp add: size_t_def)

lemma idx_small: "x < N \<Longrightarrow> y < N \<Longrightarrow> N < 2 ^ 31 \<Longrightarrow> idx N x y = x * N + y"
  using cell_index [of x N y] size_t_small [of "x * N + y" N] by (simp add: idx_def)

lemma read_cell:
  assumes "wf_board N B" and "k < N * N"
  shows "array_read (cells N) (boardState B) (size_t k) = Inr (boardState B ! k)"
  using assms by (simp add: wf_board_def cells_small size_t_small array_read_def)

lemma get_cell:
  assumes "wf_board N B" and "x < N" and "y < N"
  shows "get N B x y = Inr (boardState B ! (x * N + y))"
proof -
  from assms have "N < 2 ^ 31" by (simp add: wf_board_def)
  with assms cell_index [of x N y] show ?thesis
    by (simp add: get_def wf_board_def cells_small idx_small array_read_def)
qed

lemma for_all_pure:
  "(\<And>i. i \<in> set is \<Longrightarrow> test i = Inr (p i)) \<Longrightarrow> for_all test is = Inr (\<forall>i \<in> set is. p i)"
  by (induction "is") auto

lemma for_each_append:
  "for_each body (xs @ ys) s =
     (case for_each body xs s of Inl e \<Rightarrow> Inl e | Inr s' \<Rightarrow> for_each body ys s')"
  by (induction xs arbitrary: s) (auto split: sum.splits)

text \<open>
  A loop that assigns \<open>h j\<close> to position \<open>a + j\<close> for \<open>j = 0, ..., n - 1\<close> replaces
  that stretch of the array.
\<close>

lemma fill_loop:
  assumes "\<And>j bs. j < n \<Longrightarrow> length bs = m \<Longrightarrow> body j bs = Inr (bs[a + j := h j])"
    and "a + n \<le> m" and "length bs = m"
  shows "for_each body [0..<n] bs = Inr (take a bs @ map h [0..<n] @ drop (a + n) bs)"
  using assms
proof (induction n)
  case 0
  then show ?case by simp
next
  case (Suc n)
  let ?s = "take a bs @ map h [0..<n] @ drop (a + n) bs"
  have "for_each body [0..<n] bs = Inr ?s"
    using Suc.prems by (intro Suc.IH) simp_all
  moreover have len: "length ?s = m"
    using Suc.prems by simp
  moreover have "body n ?s = Inr (?s[a + n := h n])"
    using Suc.prems(1) [of n ?s] len by simp
  moreover have "?s[a + n := h n] = take a bs @ map h [0..<Suc n] @ drop (a + Suc n) bs"
  proof -
    from Suc.prems have lt: "a + n < length bs" by simp
    then have "drop (a + n) bs = bs ! (a + n) # drop (Suc (a + n)) bs"
      by (rule Cons_nth_drop_Suc [symmetric])
    then have "(drop (a + n) bs)[0 := h n] = h n # drop (a + Suc n) bs" by simp
    moreover have "?s[a + n := h n] = take a bs @ map h [0..<n] @ (drop (a + n) bs)[0 := h n]"
      using lt by (simp add: list_update_append)
    ultimately show ?thesis by simp
  qed
  ultimately show ?case by (simp add: for_each_append)
qed

text \<open>A loop that replaces the \<open>i\<close>-th stretch of length \<open>s\<close> by \<open>g i\<close>, for \<open>i = 0, ..., m - 1\<close>.\<close>

lemma block_loop:
  assumes "\<And>i bs. i < m \<Longrightarrow> length bs = n \<Longrightarrow>
             body i bs = Inr (take (i * s) bs @ g i @ drop (i * s + s) bs)"
    and "\<And>i. i < m \<Longrightarrow> length (g i) = s"
    and "m * s \<le> n" and "length bs = n"
  shows "for_each body [0..<m] bs = Inr (concat (map g [0..<m]) @ drop (m * s) bs)"
  using assms
proof (induction m)
  case 0
  then show ?case by simp
next
  case (Suc m)
  let ?c = "concat (map g [0..<m])"
  let ?s = "?c @ drop (m * s) bs"
  have lc: "length ?c = m * s"
    using Suc.prems(2) by (induction m) simp_all
  have "for_each body [0..<m] bs = Inr ?s"
    using Suc.prems by (intro Suc.IH) simp_all
  moreover have len: "length ?s = n"
    using Suc.prems lc by simp
  moreover have "body m ?s = Inr (take (m * s) ?s @ g m @ drop (m * s + s) ?s)"
    using Suc.prems(1) [of m ?s] len by simp
  moreover have "take (m * s) ?s = ?c"
    using lc by simp
  moreover have "drop (m * s + s) ?s = drop (Suc m * s) bs"
    using lc by (simp add: add.commute)
  ultimately show ?case by (simp add: for_each_append)
qed

text \<open>
  The cells of a row, a column and a quadrant, as lists of indices into the board, and
  the validity \<open>isValid\<close> computes on a well-formed board.
\<close>

definition row_idx :: "nat \<Rightarrow> nat \<Rightarrow> nat list" where
  "row_idx N x = map (\<lambda>y. x * N + y) [0..<N]"

definition col_idx :: "nat \<Rightarrow> nat \<Rightarrow> nat list" where
  "col_idx N y = map (\<lambda>x. x * N + y) [0..<N]"

definition quadrant_idx :: "nat \<Rightarrow> nat \<Rightarrow> nat \<Rightarrow> nat list" where
  "quadrant_idx N x y =
     concat (map (\<lambda>i. map (\<lambda>j. side N * (x * N + y) + (i * N + j)) [0..<side N]) [0..<side N])"

definition valid_board :: "nat \<Rightarrow> nat list \<Rightarrow> bool" where
  "valid_board N bs \<longleftrightarrow>
     (\<forall>x < N. section_ok (map ((!) bs) (row_idx N x))) \<and>
     (\<forall>y < N. section_ok (map ((!) bs) (col_idx N y))) \<and>
     (\<forall>x < side N. \<forall>y < side N. section_ok (map ((!) bs) (quadrant_idx N x y)))"

lemma row_eq:
  assumes "wf_board N B" and "x < N"
  shows "row N B x = Inr (map ((!) (boardState B)) (row_idx N x))"
proof -
  from assms have N: "N < 2 ^ 31" by (simp add: wf_board_def)
  have "for_each (\<lambda>y bs. case array_read (cells N) (boardState B) (idx N x y) of
            Inl e \<Rightarrow> Inl e | Inr v \<Rightarrow> array_write N bs y v) [0..<N] (replicate N 0) =
        Inr (take 0 (replicate N 0) @ map (\<lambda>y. boardState B ! (x * N + y)) [0..<N] @
             drop (0 + N) (replicate N 0))"
  proof (rule fill_loop [where m = N])
    fix j and bs :: "nat list"
    assume j: "j < N" and "length bs = N"
    with assms N cell_index [of x N j] read_cell [OF assms(1), of "x * N + j"]
    show "(case array_read (cells N) (boardState B) (idx N x j) of
            Inl e \<Rightarrow> Inl e | Inr v \<Rightarrow> array_write N bs j v) =
          Inr (bs[0 + j := boardState B ! (x * N + j)])"
      by (simp add: idx_def array_write_def)
  qed simp_all
  then show ?thesis by (simp add: row_def row_idx_def comp_def)
qed

lemma col_eq:
  assumes "wf_board N B" and "y < N"
  shows "col N B y = Inr (map ((!) (boardState B)) (col_idx N y))"
proof -
  from assms have N: "N < 2 ^ 31" by (simp add: wf_board_def)
  have "for_each (\<lambda>x bs. case array_read (cells N) (boardState B) (idx N x y) of
            Inl e \<Rightarrow> Inl e | Inr v \<Rightarrow> array_write N bs x v) [0..<N] (replicate N 0) =
        Inr (take 0 (replicate N 0) @ map (\<lambda>x. boardState B ! (x * N + y)) [0..<N] @
             drop (0 + N) (replicate N 0))"
  proof (rule fill_loop [where m = N])
    fix j and bs :: "nat list"
    assume j: "j < N" and "length bs = N"
    with assms N cell_index [of j N y] read_cell [OF assms(1), of "j * N + y"]
    show "(case array_read (cells N) (boardState B) (idx N j y) of
            Inl e \<Rightarrow> Inl e | Inr v \<Rightarrow> array_write N bs j v) =
          Inr (bs[0 + j := boardState B ! (j * N + y)])"
      by (simp add: idx_def array_write_def)
  qed simp_all
  then show ?thesis by (simp add: col_def col_idx_def comp_def)
qed

lemma side_square:
  assumes "N < 2 ^ 31" and "side N \<noteq> 0"
  shows "side N * side N = N"
proof (cases "\<exists>s < N. size_t (s * s) = N")
  case True
  then obtain s where s: "s < N" "size_t (s * s) = N" by blast
  from isqrt_loop_least [of 0 s N] s
  have r: "side N \<le> s" "size_t (side N * side N) = N"
    by (simp_all add: side_def isqrt_def)
  from r(1) s(1) have "side N < N" by simp
  then have "side N * side N < N * N"
    by (intro mult_strict_mono) simp_all
  with size_t_small [OF this assms(1)] r(2) show ?thesis by simp
next
  case False
  then have "isqrt_loop N 0 = 0" by (intro isqrt_loop_none) simp
  with assms(2) show ?thesis by (simp add: side_def isqrt_def)
qed

lemma quadrant_cell_index:
  fixes N :: nat
  assumes "s * s = N" and "x < s" and "y < s" and "i < s" and "j < s"
  shows "s * (x * N + y) + (i * N + j) < N * N"
proof -
  have a: "x * s + i < N" using cell_index [of x s i] assms by simp
  have b: "y * s + j < N" using cell_index [of y s j] assms by simp
  have "s * (x * N + y) + (i * N + j) = (x * s + i) * N + (y * s + j)"
    by (simp add: algebra_simps)
  with cell_index [OF a b] show ?thesis by simp
qed

lemma quadrant_eq:
  assumes "wf_board N B" and "x < side N" and "y < side N"
  shows "quadrant N B x y = Inr (map ((!) (boardState B)) (quadrant_idx N x y))"
proof -
  let ?s = "side N"
  let ?bs = "boardState B"
  from assms have N: "N < 2 ^ 31" by (simp add: wf_board_def)
  from assms(2) have "?s \<noteq> 0" by simp
  with N have sq: "?s * ?s = N" by (rule side_square)
  let ?g = "\<lambda>i. map (\<lambda>j. ?bs ! (?s * (x * N + y) + (i * N + j))) [0..<?s]"
  let ?inner = "\<lambda>i bs. for_each (\<lambda>j bs.
           case array_read (cells N) ?bs (size_t (?s * (x * N + y) + (i * N + j))) of
             Inl e \<Rightarrow> Inl e
           | Inr v \<Rightarrow> array_write N bs (size_t (i * ?s + j)) v) [0..<?s] bs"
  have inner: "?inner i bs = Inr (take (i * ?s) bs @ ?g i @ drop (i * ?s + ?s) bs)"
    if i: "i < ?s" and len: "length bs = N" for i and bs :: "nat list"
  proof (rule fill_loop [where m = N])
    fix j and cs :: "nat list"
    assume j: "j < ?s" and lc: "length cs = N"
    have k: "?s * (x * N + y) + (i * N + j) < N * N"
      using sq assms(2,3) i j by (rule quadrant_cell_index)
    have w: "i * ?s + j < N"
      using cell_index [OF i j] sq by simp
    moreover have "N \<le> N * N" by (cases N) simp_all
    ultimately have "i * ?s + j < N * N" by (rule less_le_trans)
    from this N have "size_t (i * ?s + j) = i * ?s + j" by (rule size_t_small)
    with w lc read_cell [OF assms(1) k]
    show "(case array_read (cells N) ?bs (size_t (?s * (x * N + y) + (i * N + j))) of
             Inl e \<Rightarrow> Inl e
           | Inr v \<Rightarrow> array_write N cs (size_t (i * ?s + j)) v) =
          Inr (cs[i * ?s + j := ?bs ! (?s * (x * N + y) + (i * N + j))])"
      by (simp add: array_write_def)
  next
    from i have "Suc i * ?s \<le> ?s * ?s" by (intro mult_le_mono1) simp
    with sq show "i * ?s + ?s \<le> N" by simp
  qed (rule len)
  have "for_each ?inner [0..<?s] (replicate N 0) =
      Inr (concat (map ?g [0..<?s]) @ drop (?s * ?s) (replicate N 0))"
    by (rule block_loop [where n = N and s = ?s]) (simp_all add: inner sq)
  then show ?thesis
    by (simp add: quadrant_def quadrant_idx_def sq map_concat comp_def)
qed


lemma row_idx_bound:
  assumes "x < N" and "k \<in> set (row_idx N x)"
  shows "k < N * N"
proof -
  from assms(2) have "k \<in> (\<lambda>y. x * N + y) ` set [0..<N]"
    unfolding row_idx_def by (simp only: set_map)
  then obtain y where "y \<in> set [0..<N]" "k = x * N + y" by (rule imageE)
  then have "y < N" "k = x * N + y" by simp_all
  with cell_index [OF assms(1), of y] show ?thesis by simp
qed

lemma col_idx_bound:
  assumes "y < N" and "k \<in> set (col_idx N y)"
  shows "k < N * N"
proof -
  from assms(2) have "k \<in> (\<lambda>x. x * N + y) ` set [0..<N]"
    unfolding col_idx_def by (simp only: set_map)
  then obtain x where "x \<in> set [0..<N]" "k = x * N + y" by (rule imageE)
  then have "x < N" "k = x * N + y" by simp_all
  with cell_index [OF _ assms(1), of x] show ?thesis by simp
qed

lemma quadrant_idx_bound:
  assumes "N < 2 ^ 31" and "x < side N" and "y < side N" and "k \<in> set (quadrant_idx N x y)"
  shows "k < N * N"
proof -
  from assms(2) have "side N \<noteq> 0" by simp
  with assms(1) have sq: "side N * side N = N" by (rule side_square)
  from assms(4) obtain i j where "i < side N" "j < side N"
    "k = side N * (x * N + y) + (i * N + j)"
    by (auto simp: quadrant_idx_def)
  with quadrant_cell_index [OF sq assms(2,3)] show ?thesis by simp
qed

lemma section_cells_le:
  assumes "wf_board N B" and "\<And>k. k \<in> set ks \<Longrightarrow> k < N * N"
  shows "\<forall>v \<in> set (map ((!) (boardState B)) ks). v \<le> N"
proof
  fix v assume "v \<in> set (map ((!) (boardState B)) ks)"
  then obtain k where "k \<in> set ks" "v = boardState B ! k" by auto
  with assms(2) [of k] assms(1) have "v \<in> set (boardState B)"
    by (simp add: wf_board_def)
  with assms(1) show "v \<le> N" by (simp add: wf_board_def)
qed

lemma rowValid_eq:
  assumes "wf_board N B" and "x < N"
  shows "rowValid N B x = Inr (section_ok (map ((!) (boardState B)) (row_idx N x)))"
  using row_eq [OF assms] sectionValid_eq [OF section_cells_le [OF assms(1)]]
    row_idx_bound [OF assms(2)]
  by (simp add: rowValid_def)

lemma colValid_eq:
  assumes "wf_board N B" and "y < N"
  shows "colValid N B y = Inr (section_ok (map ((!) (boardState B)) (col_idx N y)))"
  using col_eq [OF assms] sectionValid_eq [OF section_cells_le [OF assms(1)]]
    col_idx_bound [OF assms(2)]
  by (simp add: colValid_def)

lemma quadrantValid_eq:
  assumes "wf_board N B" and "x < side N" and "y < side N"
  shows "quadrantValid N B x y = Inr (section_ok (map ((!) (boardState B)) (quadrant_idx N x y)))"
proof -
  from assms(1) have "N < 2 ^ 31" by (simp add: wf_board_def)
  from quadrant_eq [OF assms] sectionValid_eq [OF section_cells_le [OF assms(1)]]
    quadrant_idx_bound [OF this assms(2,3)]
  show ?thesis by (simp add: quadrantValid_def)
qed

lemma isValid_eq:
  assumes "wf_board N B"
  shows "isValid N B = Inr (valid_board N (boardState B))"
proof -
  let ?bs = "boardState B"
  have "for_all (rowValid N B) [0..<N] =
      Inr (\<forall>x \<in> set [0..<N]. section_ok (map ((!) ?bs) (row_idx N x)))"
    by (rule for_all_pure) (simp add: rowValid_eq [OF assms])
  moreover have "for_all (colValid N B) [0..<N] =
      Inr (\<forall>y \<in> set [0..<N]. section_ok (map ((!) ?bs) (col_idx N y)))"
    by (rule for_all_pure) (simp add: colValid_eq [OF assms])
  moreover have "for_all (\<lambda>x. for_all (quadrantValid N B x) [0..<side N]) [0..<side N] =
      Inr (\<forall>x \<in> set [0..<side N]. \<forall>y \<in> set [0..<side N].
             section_ok (map ((!) ?bs) (quadrant_idx N x y)))"
  proof (rule for_all_pure)
    fix x assume "x \<in> set [0..<side N]"
    then have x: "x < side N" by simp
    show "for_all (quadrantValid N B x) [0..<side N] =
        Inr (\<forall>y \<in> set [0..<side N]. section_ok (map ((!) ?bs) (quadrant_idx N x y)))"
      by (rule for_all_pure) (simp add: quadrantValid_eq [OF assms x])
  qed
  ultimately show ?thesis
    by (auto simp: isValid_def valid_board_def)
qed

lemma index_split:
  fixes N :: nat
  assumes "k < N * N"
  shows "k div N < N \<and> k mod N < N \<and> k = (k div N) * N + k mod N"
proof -
  from assms have "0 < N" by (cases N) simp_all
  moreover from assms have "k div N < N"
    by (simp add: less_mult_imp_div_less)
  ultimately show ?thesis by simp
qed

lemma isComplete_eq:
  assumes "wf_board N B"
  shows "isComplete N B = Inr (\<forall>k < N * N. boardState B ! k \<noteq> 0)"
proof -
  let ?bs = "boardState B"
  have "isComplete N B = Inr (\<forall>x \<in> set [0..<N]. \<forall>y \<in> set [0..<N]. ?bs ! (x * N + y) \<noteq> 0)"
    unfolding isComplete_def
  proof (rule for_all_pure)
    fix x assume "x \<in> set [0..<N]"
    then have x: "x < N" by simp
    show "for_all (\<lambda>y. case get N B x y of Inl e \<Rightarrow> Inl e | Inr v \<Rightarrow> Inr (v \<noteq> 0)) [0..<N] =
        Inr (\<forall>y \<in> set [0..<N]. ?bs ! (x * N + y) \<noteq> 0)"
      by (rule for_all_pure) (simp add: get_cell [OF assms x])
  qed
  moreover have "(\<forall>x \<in> set [0..<N]. \<forall>y \<in> set [0..<N]. ?bs ! (x * N + y) \<noteq> 0) =
      (\<forall>k < N * N. ?bs ! k \<noteq> 0)"
  proof
    assume a: "\<forall>x \<in> set [0..<N]. \<forall>y \<in> set [0..<N]. ?bs ! (x * N + y) \<noteq> 0"
    show "\<forall>k < N * N. ?bs ! k \<noteq> 0"
    proof (intro allI impI)
      fix k assume "k < N * N"
      from index_split [OF this] a show "?bs ! k \<noteq> 0"
        by (metis atLeast0LessThan lessThan_iff set_upt)
    qed
  next
    assume "\<forall>k < N * N. ?bs ! k \<noteq> 0"
    then show "\<forall>x \<in> set [0..<N]. \<forall>y \<in> set [0..<N]. ?bs ! (x * N + y) \<noteq> 0"
      by (simp add: cell_index)
  qed
  ultimately show ?thesis by simp
qed

lemma isSolved_eq:
  assumes "wf_board N B"
  shows "isSolved N B =
    Inr (valid_board N (boardState B) \<and> (\<forall>k < N * N. boardState B ! k \<noteq> 0))"
  by (simp add: isSolved_def isValid_eq [OF assms] isComplete_eq [OF assms])

section \<open>The search finds the first solution\<close>

lemma next_y_skip:
  "\<forall>y \<in> set ys1. \<exists>v. get N B x y = Inr v \<and> v \<noteq> 0 \<Longrightarrow>
   next_y N B x (ys1 @ ys2) = next_y N B x ys2"
  by (induction ys1) auto

lemma next_x_skip:
  "\<forall>x \<in> set xs1. next_y N B x [0..<N] = Inr None \<Longrightarrow>
   next_x N B (xs1 @ xs2) = next_x N B xs2"
  by (induction xs1) auto

lemma upt_split: "i < n \<Longrightarrow> [0..<n] = [0..<i] @ i # [Suc i..<n]"
  using upt_add_eq_append [of 0 i "n - i"] by (simp add: upt_conv_Cons)

text \<open>
  On a well-formed board \<open>next\<close> returns the coordinates of the first zero cell in
  row-major order, that is, of the least index holding zero.
\<close>

lemma next_cell_first:
  assumes wf: "wf_board N B"
    and k: "k < N * N" "boardState B ! k = 0" "\<forall>j < k. boardState B ! j \<noteq> 0"
  shows "next_cell N B = Inr (k div N, k mod N)"
proof -
  let ?x = "k div N" and ?y = "k mod N"
  from index_split [OF k(1)] have x: "?x < N" and y: "?y < N" and split: "k = ?x * N + ?y"
    by simp_all
  have before: "next_y N B x [0..<N] = Inr None" if "x < ?x" for x
  proof (rule next_y_none, rule ballI)
    fix y assume "y \<in> set [0..<N]"
    then have y': "y < N" by simp
    from that x have x': "x < N" by simp
    from that have "Suc x \<le> ?x" by simp
    then have le: "Suc x * N \<le> ?x * N" by (rule mult_le_mono1)
    from y' have "x * N + y < Suc x * N" by simp
    also note le
    also have "?x * N \<le> k" by simp
    finally have "x * N + y < k" .
    with k(3) get_cell [OF wf x' y']
    show "\<exists>v. get N B x y = Inr v \<and> v \<noteq> 0" by simp
  qed
  have "\<forall>y \<in> set [0..<?y]. \<exists>v. get N B ?x y = Inr v \<and> v \<noteq> 0"
  proof
    fix y assume "y \<in> set [0..<?y]"
    then have lt: "y < ?y" by simp
    with y have y': "y < N" by simp
    from lt have "?x * N + y < ?x * N + ?y" by (simp only: add_less_cancel_left)
    also have "\<dots> = k" by simp
    finally have "?x * N + y < k" .
    with k(3) get_cell [OF wf x y']
    show "\<exists>v. get N B ?x y = Inr v \<and> v \<noteq> 0" by simp
  qed
  then have "next_y N B ?x ([0..<?y] @ ?y # [Suc ?y..<N]) = next_y N B ?x (?y # [Suc ?y..<N])"
    by (rule next_y_skip)
  also have "\<dots> = Inr (Some (?x, ?y))"
    using get_cell [OF wf x y] split k(2) by simp
  finally have row: "next_y N B ?x [0..<N] = Inr (Some (?x, ?y))"
    using upt_split [OF y] by simp
  have "next_x N B ([0..<?x] @ ?x # [Suc ?x..<N]) = next_x N B (?x # [Suc ?x..<N])"
    by (rule next_x_skip) (simp add: before)
  also have "\<dots> = Inr (?x, ?y)"
    using row by simp
  finally show ?thesis
    using upt_split [OF x] by (simp add: next_cell_def)
qed

lemma first_zero_exists:
  assumes "\<not> (\<forall>k < n. bs ! k \<noteq> (0::nat))"
  shows "\<exists>k < n. bs ! k = 0 \<and> (\<forall>j < k. bs ! j \<noteq> 0)"
proof -
  from assms obtain k0 where k0: "k0 < n \<and> bs ! k0 = 0" by auto
  define k where "k = (LEAST k. k < n \<and> bs ! k = 0)"
  from k0 have "k < n \<and> bs ! k = 0"
    unfolding k_def by (rule LeastI)
  moreover have "bs ! j \<noteq> 0" if "j < k" for j
  proof
    assume "bs ! j = 0"
    with that \<open>k < n \<and> bs ! k = 0\<close> have "j < n \<and> bs ! j = 0" by simp
    then have "k \<le> j" unfolding k_def by (rule Least_le)
    with that show False by simp
  qed
  ultimately show ?thesis by blast
qed

lemma section_ok_mono:
  assumes "\<forall>k \<in> set ks. b ! k = 0 \<or> b ! k = s ! k"
    and "section_ok (map ((!) s) ks)"
  shows "section_ok (map ((!) b) ks)"
  using assms
proof (induction ks)
  case Nil
  then show ?case by (simp add: section_ok_def)
next
  case (Cons k ks)
  then have rest: "section_ok (map ((!) b) ks)"
    by (simp add: section_ok_def split: if_splits)
  show ?case
  proof (cases "b ! k = 0")
    case True
    with rest show ?thesis by (simp add: section_ok_def)
  next
    case False
    with Cons.prems(1) have eq: "b ! k = s ! k" by simp
    have "b ! k \<noteq> b ! j" if "j \<in> set ks" for j
    proof
      assume e: "b ! k = b ! j"
      with False Cons.prems(1) that have "b ! j = s ! j" by auto
      with e eq have "s ! k = s ! j" by simp
      with Cons.prems(2) False eq that show False
        by (auto simp: section_ok_def)
    qed
    with rest False show ?thesis by (auto simp: section_ok_def)
  qed
qed

lemma valid_board_mono:
  assumes "wf_board N B" and "keeps_clues B S" and "valid_board N (boardState S)"
  shows "valid_board N (boardState B)"
proof -
  from assms(1) have N: "N < 2 ^ 31" and len: "length (boardState B) = N * N"
    by (simp_all add: wf_board_def)
  have sub: "section_ok (map ((!) (boardState B)) ks)"
    if "\<And>k. k \<in> set ks \<Longrightarrow> k < N * N" and "section_ok (map ((!) (boardState S)) ks)" for ks
  proof (rule section_ok_mono [OF _ that(2)], rule ballI)
    fix k assume "k \<in> set ks"
    with that(1) len have "k < length (boardState B)" by simp
    with assms(2) show "boardState B ! k = 0 \<or> boardState B ! k = boardState S ! k"
      by (auto simp: keeps_clues_def)
  qed
  show ?thesis
    unfolding valid_board_def
  proof (intro conjI allI impI)
    fix x assume "x < N"
    with assms(3) row_idx_bound [of x N] show "section_ok (map ((!) (boardState B)) (row_idx N x))"
      by (intro sub) (simp_all add: valid_board_def)
  next
    fix y assume "y < N"
    with assms(3) col_idx_bound [of y N] show "section_ok (map ((!) (boardState B)) (col_idx N y))"
      by (intro sub) (simp_all add: valid_board_def)
  next
    fix x y assume "x < side N" "y < side N"
    with assms(3) quadrant_idx_bound [OF N, of x y]
    show "section_ok (map ((!) (boardState B)) (quadrant_idx N x y))"
      by (intro sub) (simp_all add: valid_board_def)
  qed
qed

text \<open>
  The board \<open>B\<close> with cell \<open>k\<close> set to \<open>i\<close>: what \<open>put\<close> returns inside \<open>solve\<close>.
\<close>

definition child :: "GenSudoku \<Rightarrow> nat \<Rightarrow> nat \<Rightarrow> GenSudoku" where
  "child B k i = B\<lparr>boardState := (boardState B)[k := i]\<rparr>"

text \<open>
  A solution of \<open>B\<close> is a well-formed board that \<open>isSolved\<close> accepts (valid and complete)
  and that agrees with \<open>B\<close> on the non-zero cells of \<open>B\<close>.  Boards are compared in the
  lexicographic order of their row-major cell lists.
\<close>

definition solution_of :: "nat \<Rightarrow> GenSudoku \<Rightarrow> GenSudoku \<Rightarrow> bool" where
  "solution_of N B S \<longleftrightarrow> wf_board N S \<and> isSolved N S = Inr True \<and> keeps_clues B S"

definition lex_le :: "nat list \<Rightarrow> nat list \<Rightarrow> bool" where
  "lex_le r s \<longleftrightarrow>
     r = s \<or> (\<exists>k. k < length r \<and> k < length s \<and> take k r = take k s \<and> r ! k < s ! k)"

definition first_solution :: "nat \<Rightarrow> GenSudoku \<Rightarrow> GenSudoku \<Rightarrow> bool" where
  "first_solution N B R \<longleftrightarrow>
     solution_of N B R \<and> (\<forall>S. solution_of N B S \<longrightarrow> lex_le (boardState R) (boardState S))"

definition solve_spec :: "nat \<Rightarrow> GenSudoku \<Rightarrow> bool" where
  "solve_spec N B \<longleftrightarrow>
     (if \<exists>S. solution_of N B S then \<exists>R. solve N B = Inr R \<and> first_solution N B R
      else solve N B = Inr B)"

lemma wf_child:
  assumes "wf_board N B" and "i \<le> N"
  shows "wf_board N (child B k i)"
proof -
  have "set ((boardState B)[k := i]) \<subseteq> insert i (set (boardState B))"
    by (rule set_update_subset_insert)
  with assms show ?thesis by (auto simp: wf_board_def child_def)
qed

lemma zeros_child:
  assumes "k < length (boardState B)" and "boardState B ! k = 0" and "i \<noteq> 0"
  shows "zeros (child B k i) < zeros B"
  using count_list_update [OF assms(1), of i 0] assms(2,3)
  by (simp add: zeros_def child_def)

lemma put_child:
  assumes "wf_board N B" and "x < N" and "y < N"
  shows "put N B x y i = Inr (child B (x * N + y) i, child B (x * N + y) i)"
proof -
  from assms(1) have N: "N < 2 ^ 31" and len: "length (boardState B) = N * N"
    by (simp_all add: wf_board_def)
  from cell_index [OF assms(2,3)] N len assms(2,3) show ?thesis
    by (simp add: put_def array_write_def cells_small idx_small child_def)
qed

lemma keeps_clues_child:
  assumes "k < length (boardState B)" and "boardState B ! k = 0" and "i \<noteq> 0"
  shows "keeps_clues (child B k i) S \<longleftrightarrow> keeps_clues B S \<and> boardState S ! k = i"
proof
  assume a: "keeps_clues (child B k i) S"
  then have len: "length (boardState S) = length (boardState B)"
    by (simp add: keeps_clues_def child_def)
  from a assms(1,3) have at: "boardState S ! k = i"
    by (auto simp: keeps_clues_def child_def)
  have "boardState S ! j = boardState B ! j"
    if "j < length (boardState B)" "boardState B ! j \<noteq> 0" for j
  proof -
    from that assms(2) have "j \<noteq> k" by auto
    with a that show ?thesis by (auto simp: keeps_clues_def child_def)
  qed
  with len at show "keeps_clues B S \<and> boardState S ! k = i"
    by (simp add: keeps_clues_def)
next
  assume a: "keeps_clues B S \<and> boardState S ! k = i"
  have "boardState S ! j = (boardState B)[k := i] ! j"
    if "j < length (boardState B)" "(boardState B)[k := i] ! j \<noteq> 0" for j
  proof (cases "j = k")
    case True
    with a that show ?thesis by simp
  next
    case False
    with a that show ?thesis by (auto simp: keeps_clues_def)
  qed
  with a show "keeps_clues (child B k i) S"
    by (simp add: keeps_clues_def child_def)
qed

lemma solution_child:
  assumes "k < length (boardState B)" and "boardState B ! k = 0" and "i \<noteq> 0"
  shows "solution_of N (child B k i) S \<longleftrightarrow> solution_of N B S \<and> boardState S ! k = i"
  using keeps_clues_child [OF assms] by (auto simp: solution_of_def)

lemma solution_cell:
  assumes "solution_of N B S" and "k < N * N"
  shows "1 \<le> boardState S ! k \<and> boardState S ! k \<le> N"
proof -
  from assms(1) have wf: "wf_board N S" and solved: "isSolved N S = Inr True"
    by (simp_all add: solution_of_def)
  from solved isSolved_eq [OF wf] assms(2) have "boardState S ! k \<noteq> 0" by simp
  moreover from wf assms(2) have "boardState S ! k \<in> set (boardState S)"
    by (simp add: wf_board_def)
  with wf have "boardState S ! k \<le> N" by (simp add: wf_board_def)
  ultimately show ?thesis by simp
qed

lemma solution_prefix:
  assumes "solution_of N B S" and "wf_board N B" and "k \<le> N * N"
    and "\<forall>j < k. boardState B ! j \<noteq> 0"
  shows "take k (boardState S) = take k (boardState B)"
proof -
  from assms(1,2) have len: "length (boardState S) = N * N" "length (boardState B) = N * N"
    by (simp_all add: solution_of_def wf_board_def)
  have "boardState S ! j = boardState B ! j" if "j < k" for j
    using that assms(1,3,4) len by (simp add: solution_of_def keeps_clues_def)
  with len assms(3) show ?thesis
    by (intro nth_take_lemma) simp_all
qed

lemma solved_flags:
  assumes "wf_board N R" and "isSolved N R = Inr True"
  shows "isComplete N R = Inr True \<and> isValid N R = Inr True"
  using assms(2) isSolved_eq [OF assms(1)] isValid_eq [OF assms(1)] isComplete_eq [OF assms(1)]
  by simp

lemma unsolved_flags:
  assumes "wf_board N C" and "isSolved N C \<noteq> Inr True"
  shows "isComplete N C = Inr False \<or> (isComplete N C = Inr True \<and> isValid N C = Inr False)"
  using assms(2) isSolved_eq [OF assms(1)] isValid_eq [OF assms(1)] isComplete_eq [OF assms(1)]
  by auto

lemma solve_loop_fail:
  assumes "put N B x y i = Inr (C, C)" and "solve N C = Inr C"
    and "isComplete N C = Inr False \<or> (isComplete N C = Inr True \<and> isValid N C = Inr False)"
  shows "solve_loop N B x y (i # is) = solve_loop N B x y is"
  using assms by auto

lemma solve_loop_success:
  assumes "put N B x y i = Inr (C, C)" and "solve N C = Inr R"
    and "isComplete N R = Inr True" and "isValid N R = Inr True"
  shows "solve_loop N B x y (i # is) = Inr R"
  using assms by simp

text \<open>
  The candidate loop, given that the recursive calls meet the specification: it returns
  the first solution of the first candidate whose board has a solution, and the board
  itself if no candidate has one.
\<close>

lemma solve_loop_spec:
  assumes wf: "wf_board N B" and xy: "x < N" "y < N"
    and rec: "\<And>i. i \<in> set is \<Longrightarrow> solve_spec N (child B (x * N + y) i)"
    and rng: "\<forall>i \<in> set is. 1 \<le> i \<and> i \<le> N"
  shows "if \<exists>i \<in> set is. \<exists>S. solution_of N (child B (x * N + y) i) S
         then \<exists>is1 i is2 R. is = is1 @ i # is2
                \<and> (\<forall>j \<in> set is1. \<not> (\<exists>S. solution_of N (child B (x * N + y) j) S))
                \<and> solve_loop N B x y is = Inr R
                \<and> first_solution N (child B (x * N + y) i) R
         else solve_loop N B x y is = Inr B"
  using rec rng
proof (induction "is")
  case Nil
  show ?case by simp
next
  case (Cons i "is")
  let ?k = "x * N + y"
  let ?C = "child B ?k i"
  from Cons.prems(2) have i: "1 \<le> i" "i \<le> N" by simp_all
  have put: "put N B x y i = Inr (?C, ?C)"
    by (rule put_child [OF wf xy])
  have wfC: "wf_board N ?C"
    using wf i(2) by (rule wf_child)
  have spec: "solve_spec N ?C"
    by (rule Cons.prems(1)) simp
  have IH: "if \<exists>i \<in> set is. \<exists>S. solution_of N (child B ?k i) S
         then \<exists>is1 i is2 R. is = is1 @ i # is2
                \<and> (\<forall>j \<in> set is1. \<not> (\<exists>S. solution_of N (child B ?k j) S))
                \<and> solve_loop N B x y is = Inr R
                \<and> first_solution N (child B ?k i) R
         else solve_loop N B x y is = Inr B"
    using Cons.prems by (intro Cons.IH) simp_all
  show ?case
  proof (cases "\<exists>S. solution_of N ?C S")
    case True
    with spec obtain R where R: "solve N ?C = Inr R" "first_solution N ?C R"
      by (auto simp: solve_spec_def)
    from R(2) have "wf_board N R" "isSolved N R = Inr True"
      by (simp_all add: first_solution_def solution_of_def)
    then have "isComplete N R = Inr True \<and> isValid N R = Inr True"
      by (rule solved_flags)
    with put R(1) have "solve_loop N B x y (i # is) = Inr R"
      by (intro solve_loop_success [of N B x y i ?C R]) simp_all
    with R(2) have "i # is = [] @ i # is
        \<and> (\<forall>j \<in> set []. \<not> (\<exists>S. solution_of N (child B ?k j) S))
        \<and> solve_loop N B x y (i # is) = Inr R
        \<and> first_solution N (child B ?k i) R"
      by simp
    then have "\<exists>is1 i' is2 R. i # is = is1 @ i' # is2
        \<and> (\<forall>j \<in> set is1. \<not> (\<exists>S. solution_of N (child B ?k j) S))
        \<and> solve_loop N B x y (i # is) = Inr R
        \<and> first_solution N (child B ?k i') R"
      by blast
    moreover from True have "\<exists>i' \<in> set (i # is). \<exists>S. solution_of N (child B ?k i') S"
      by simp
    ultimately show ?thesis by (simp only: if_True)
  next
    case False
    with spec have same: "solve N ?C = Inr ?C"
      by (simp add: solve_spec_def)
    have "isSolved N ?C \<noteq> Inr True"
    proof
      assume "isSolved N ?C = Inr True"
      with wfC have "solution_of N ?C ?C"
        by (simp add: solution_of_def keeps_clues_refl)
      with False show False by blast
    qed
    with wfC have "isComplete N ?C = Inr False \<or>
        (isComplete N ?C = Inr True \<and> isValid N ?C = Inr False)"
      by (rule unsolved_flags)
    with put same have step: "solve_loop N B x y (i # is) = solve_loop N B x y is"
      by (rule solve_loop_fail)
    show ?thesis
    proof (cases "\<exists>i \<in> set is. \<exists>S. solution_of N (child B ?k i) S")
      case none: False
      with False have "\<not> (\<exists>i' \<in> set (i # is). \<exists>S. solution_of N (child B ?k i') S)"
        by simp
      moreover from none IH step have "solve_loop N B x y (i # is) = Inr B"
        by (simp only: if_False)
      ultimately show ?thesis by (simp only: if_False)
    next
      case True
      with IH obtain is1 i' is2 R where r: "is = is1 @ i' # is2"
        "\<forall>j \<in> set is1. \<not> (\<exists>S. solution_of N (child B ?k j) S)"
        "solve_loop N B x y is = Inr R" "first_solution N (child B ?k i') R"
        by (simp only: if_True) blast
      from r(1) have "i # is = (i # is1) @ i' # is2" by simp
      moreover from r(2) False
      have "\<forall>j \<in> set (i # is1). \<not> (\<exists>S. solution_of N (child B ?k j) S)" by simp
      moreover from step r(3) have "solve_loop N B x y (i # is) = Inr R" by simp
      ultimately have "\<exists>is1 i' is2 R. i # is = is1 @ i' # is2
          \<and> (\<forall>j \<in> set is1. \<not> (\<exists>S. solution_of N (child B ?k j) S))
          \<and> solve_loop N B x y (i # is) = Inr R
          \<and> first_solution N (child B ?k i') R"
        using r(4) by blast
      moreover from True have "\<exists>i' \<in> set (i # is). \<exists>S. solution_of N (child B ?k i') S"
        by simp
      ultimately show ?thesis by (simp only: if_True)
    qed
  qed
qed

lemma solution_valid:
  assumes "solution_of N B S"
  shows "valid_board N (boardState S)"
proof -
  from assms have wf: "wf_board N S" and "isSolved N S = Inr True"
    by (simp_all add: solution_of_def)
  with isSolved_eq [OF wf] show ?thesis by simp
qed

lemma solution_of_complete:
  assumes wf: "wf_board N B" and full: "\<forall>k < N * N. boardState B ! k \<noteq> 0"
    and sol: "solution_of N B S"
  shows "boardState S = boardState B"
proof (rule nth_equalityI)
  from wf sol show len: "length (boardState S) = length (boardState B)"
    by (simp add: solution_of_def keeps_clues_def)
  fix k assume "k < length (boardState S)"
  with len wf have "k < N * N" by (simp add: wf_board_def)
  with full sol wf show "boardState S ! k = boardState B ! k"
    by (simp add: solution_of_def keeps_clues_def wf_board_def)
qed

lemma candidates_iff: "i \<in> set [1..<N + 1] \<longleftrightarrow> 1 \<le> i \<and> i \<le> N"
  by (simp del: upt_Suc) arith

text \<open>
  The specification of \<open>solve\<close> on well-formed boards, by induction on the number of
  empty cells.
\<close>

lemma solve_meets_spec:
  assumes "wf_board N B"
  shows "solve_spec N B"
  using assms
proof (induction "zeros B" arbitrary: B rule: less_induct)
  case less
  note wf = less.prems
  from wf have N: "N < 2 ^ 31" and len: "length (boardState B) = N * N"
    by (simp_all add: wf_board_def)
  show ?case
  proof (cases "valid_board N (boardState B)")
    case False
    with isValid_eq [OF wf] have "isValid N B = Inr False" by simp
    then have "solve N B = Inr B" by (rule solve_stop(1))
    moreover have "\<not> (\<exists>S. solution_of N B S)"
    proof
      assume "\<exists>S. solution_of N B S"
      then obtain S where S: "solution_of N B S" ..
      then have "keeps_clues B S" by (simp add: solution_of_def)
      from valid_board_mono [OF wf this solution_valid [OF S]] False show False by simp
    qed
    ultimately show ?thesis by (simp add: solve_spec_def)
  next
    case valid: True
    with isValid_eq [OF wf] have isValid: "isValid N B = Inr True" by simp
    show ?thesis
    proof (cases "\<forall>k < N * N. boardState B ! k \<noteq> 0")
      case True
      with isComplete_eq [OF wf] have isComplete: "isComplete N B = Inr True" by simp
      from isValid isComplete have solve: "solve N B = Inr B" by (rule solve_solved)
      from isValid isComplete have "isSolved N B = Inr True" by (simp add: isSolved_def)
      with wf have self: "solution_of N B B"
        by (simp add: solution_of_def keeps_clues_refl)
      have "lex_le (boardState B) (boardState S)" if "solution_of N B S" for S
        using solution_of_complete [OF wf True that] by (simp add: lex_le_def)
      with self have "first_solution N B B" by (simp add: first_solution_def)
      with solve self show ?thesis by (auto simp: solve_spec_def)
    next
      case False
      from first_zero_exists [OF this] obtain k where k: "k < N * N" "boardState B ! k = 0"
        "\<forall>j < k. boardState B ! j \<noteq> 0" by blast
      define x y where "x = k div N" and "y = k mod N"
      from index_split [OF k(1)] have x: "x < N" and y: "y < N" and split: "x * N + y = k"
        by (simp_all add: x_def y_def)
      from next_cell_first [OF wf k] have next_cell: "next_cell N B = Inr (x, y)"
        by (simp add: x_def y_def)
      from x N have "x \<noteq> SIZE_MAX" by (simp add: SIZE_MAX_def)
      with isValid next_cell have solve: "solve N B = solve_loop N B x y [1..<N + 1]"
        by (rule solve_search)
      have rec: "solve_spec N (child B (x * N + y) i)" if "i \<in> set [1..<N + 1]" for i
      proof -
        from that have "1 \<le> i \<and> i \<le> N" by (simp only: candidates_iff)
        then have i: "i \<noteq> 0" "i \<le> N" by simp_all
        from k(1) len have "k < length (boardState B)" by simp
        from zeros_child [OF this k(2) i(1)] wf_child [OF wf i(2), of k] split
        show ?thesis by (simp add: less.hyps)
      qed
      have rng: "\<forall>i \<in> set [1..<N + 1]. 1 \<le> i \<and> i \<le> N"
        using candidates_iff by blast
      have "if \<exists>i \<in> set [1..<N + 1]. \<exists>S. solution_of N (child B (x * N + y) i) S
         then \<exists>is1 i is2 R. [1..<N + 1] = is1 @ i # is2
                \<and> (\<forall>j \<in> set is1. \<not> (\<exists>S. solution_of N (child B (x * N + y) j) S))
                \<and> solve_loop N B x y [1..<N + 1] = Inr R
                \<and> first_solution N (child B (x * N + y) i) R
         else solve_loop N B x y [1..<N + 1] = Inr B"
        using wf x y
      proof (rule solve_loop_spec)
        show "solve_spec N (child B (x * N + y) i)" if "i \<in> set [1..<N + 1]" for i
          using that by (rule rec)
        show "\<forall>i \<in> set [1..<N + 1]. 1 \<le> i \<and> i \<le> N" by (rule rng)
      qed
      note loop = this [unfolded split]
      from k(1) len have klen: "k < length (boardState B)" by simp
      show ?thesis
      proof (cases "\<exists>S. solution_of N B S")
        case none: False
        have "\<not> (\<exists>i \<in> set [1..<N + 1]. \<exists>S. solution_of N (child B k i) S)"
        proof
          assume "\<exists>i \<in> set [1..<N + 1]. \<exists>S. solution_of N (child B k i) S"
          then obtain i S where i: "i \<in> set [1..<N + 1]" and S: "solution_of N (child B k i) S"
            by blast
          from i have "1 \<le> i \<and> i \<le> N" by (simp only: candidates_iff)
          then have "i \<noteq> 0" by simp
          from S solution_child [OF klen k(2) this, of N S] have "solution_of N B S" by simp
          with none show False by blast
        qed
        from loop [unfolded if_not_P [OF this]] have "solve_loop N B x y [1..<N + 1] = Inr B" .
        with solve none show ?thesis by (simp add: solve_spec_def)
      next
        case True
        then obtain S0 where S0: "solution_of N B S0" ..
        let ?j0 = "boardState S0 ! k"
        from solution_cell [OF S0 k(1)] have j0: "1 \<le> ?j0" "?j0 \<le> N" by simp_all
        then have "?j0 \<in> set [1..<N + 1]" by (simp only: candidates_iff)
        moreover from S0 j0 solution_child [OF klen k(2), of ?j0 N S0]
        have "solution_of N (child B k ?j0) S0" by simp
        ultimately have "\<exists>i \<in> set [1..<N + 1]. \<exists>S. solution_of N (child B k i) S" by blast
        from loop [unfolded if_P [OF this]] obtain is1 i is2 R where r: "[1..<N + 1] = is1 @ i # is2"
          "\<forall>j \<in> set is1. \<not> (\<exists>S. solution_of N (child B k j) S)"
          "solve_loop N B x y [1..<N + 1] = Inr R" "first_solution N (child B k i) R"
          by blast
        have "i \<in> set [1..<N + 1]" unfolding r(1) by simp
        then have "1 \<le> i \<and> i \<le> N" by (simp only: candidates_iff)
        then have i: "i \<noteq> 0" "i \<le> N" by simp_all
        from r(4) solution_child [OF klen k(2) i(1), of N R]
        have R: "solution_of N B R" "boardState R ! k = i"
          by (simp_all add: first_solution_def)
        have later: "i < j" if "j \<in> set is2" for j
        proof -
          have "sorted_wrt (<) (is1 @ i # is2)"
            unfolding r(1) [symmetric] by (rule sorted_wrt_upt)
          with that show ?thesis by (simp add: sorted_wrt_append)
        qed
        have least: "lex_le (boardState R) (boardState S)" if S: "solution_of N B S" for S
        proof -
          let ?j = "boardState S ! k"
          from solution_cell [OF S k(1)] have j: "1 \<le> ?j" "?j \<le> N" by simp_all
          then have nz: "?j \<noteq> 0" by simp
          from S solution_child [OF klen k(2) nz, of N S]
          have Sj: "solution_of N (child B k ?j) S" by simp
          with r(2) have "?j \<notin> set is1" by blast
          moreover from j have "?j \<in> set [1..<N + 1]" by (simp only: candidates_iff)
          ultimately have "?j = i \<or> ?j \<in> set is2"
            unfolding r(1) by simp
          then show ?thesis
          proof
            assume "?j = i"
            with Sj r(4) show ?thesis by (simp add: first_solution_def)
          next
            assume "?j \<in> set is2"
            then have "i < ?j" by (rule later)
            with R(2) have "boardState R ! k < boardState S ! k" by simp
            moreover from k(1) have "k \<le> N * N" by simp
            then have "take k (boardState R) = take k (boardState S)"
              using solution_prefix [OF R(1) wf _ k(3)] solution_prefix [OF S wf _ k(3)]
              by simp
            moreover from R(1) S k(1) have "k < length (boardState R)" "k < length (boardState S)"
              by (simp_all add: solution_of_def wf_board_def)
            ultimately show ?thesis by (auto simp: lex_le_def)
          qed
        qed
        from R(1) least have "first_solution N B R" by (simp add: first_solution_def)
        with solve r(3) True show ?thesis by (auto simp: solve_spec_def)
      qed
    qed
  qed
qed

lemma keeps_clues_list_all2:
  "keeps_clues B S \<longleftrightarrow> list_all2 (\<lambda>b s. b \<noteq> 0 \<longrightarrow> s = b) (boardState B) (boardState S)"
  by (auto simp: keeps_clues_def list_all2_conv_all_nth)

lemma side_of_square:
  assumes "2 \<le> s" and "s * s < 2 ^ 31"
  shows "side (s * s) = s"
proof -
  let ?N = "s * s"
  from assms(1) have "s * 1 < s * s" by (intro mult_strict_left_mono) simp_all
  then have lt: "s < ?N" by simp
  from small_square [OF assms(2)] have "size_t ?N = ?N"
    using assms(2) by (simp add: size_t_def)
  from isqrt_loop_least [of 0 s ?N] lt this
  have r: "side ?N \<le> s" "size_t (side ?N * side ?N) = ?N"
    by (simp_all add: side_def isqrt_def)
  from r(1) have "side ?N * side ?N \<le> ?N" by (intro mult_le_mono)
  with assms(2) have "side ?N * side ?N < 2 ^ 64"
    by simp
  with r(2) have sq: "side ?N * side ?N = s * s" by (simp add: size_t_def)
  show ?thesis
  proof (rule ccontr)
    assume "side ?N \<noteq> s"
    with r(1) have "side ?N < s" by simp
    then have "side ?N * side ?N < s * s" by (intro mult_strict_mono) simp_all
    with sq show False by simp
  qed
qed

text \<open>
  The rules of the puzzle, stated on the grid alone.  The board has side \<open>N = s * s\<close> and
  \<open>cell_at N bs r c\<close> is the cell in row \<open>r\<close> and column \<open>c\<close>.  A grid is valid when no
  two different cells of one row, of one column, or of one of the \<open>s\<close> by \<open>s\<close> blocks hold
  the same non-zero value; block \<open>(x, y)\<close> consists of the rows \<open>s * x + i\<close> and the columns
  \<open>s * y + j\<close> with \<open>i, j < s\<close>.
\<close>

definition cell_at :: "nat \<Rightarrow> nat list \<Rightarrow> nat \<Rightarrow> nat \<Rightarrow> nat" where
  "cell_at N bs r c = bs ! (r * N + c)"

definition sudoku_valid :: "nat \<Rightarrow> nat list \<Rightarrow> bool" where
  "sudoku_valid s bs \<longleftrightarrow>
     (\<forall>r < s * s. \<forall>c1 < s * s. \<forall>c2 < s * s.
        c1 \<noteq> c2 \<and> cell_at (s * s) bs r c1 \<noteq> 0 \<longrightarrow>
        cell_at (s * s) bs r c1 \<noteq> cell_at (s * s) bs r c2) \<and>
     (\<forall>c < s * s. \<forall>r1 < s * s. \<forall>r2 < s * s.
        r1 \<noteq> r2 \<and> cell_at (s * s) bs r1 c \<noteq> 0 \<longrightarrow>
        cell_at (s * s) bs r1 c \<noteq> cell_at (s * s) bs r2 c) \<and>
     (\<forall>x < s. \<forall>y < s. \<forall>i1 < s. \<forall>j1 < s. \<forall>i2 < s. \<forall>j2 < s.
        (i1, j1) \<noteq> (i2, j2) \<and> cell_at (s * s) bs (s * x + i1) (s * y + j1) \<noteq> 0 \<longrightarrow>
        cell_at (s * s) bs (s * x + i1) (s * y + j1) \<noteq>
        cell_at (s * s) bs (s * x + i2) (s * y + j2))"

lemma section_ok_map:
  assumes "distinct ks"
  shows "section_ok (map g ks) \<longleftrightarrow>
    (\<forall>a \<in> set ks. \<forall>b \<in> set ks. a \<noteq> b \<and> g a \<noteq> 0 \<longrightarrow> g a \<noteq> g b)"
proof -
  have "filter (\<lambda>v. v \<noteq> 0) (map g ks) = map g (filter (\<lambda>k. g k \<noteq> 0) ks)"
    by (simp add: filter_map comp_def)
  then have "section_ok (map g ks) \<longleftrightarrow> inj_on g (set (filter (\<lambda>k. g k \<noteq> 0) ks))"
    using assms by (simp add: section_ok_def distinct_map)
  also have "\<dots> \<longleftrightarrow> (\<forall>a \<in> set ks. \<forall>b \<in> set ks. a \<noteq> b \<and> g a \<noteq> 0 \<longrightarrow> g a \<noteq> g b)"
    by (auto simp: inj_on_def)
  finally show ?thesis .
qed

lemma concat_map_product:
  "concat (map (\<lambda>i. map (f i) ys) xs) = map (\<lambda>(i, j). f i j) (List.product xs ys)"
  by (induction xs) simp_all

lemma row_ok_iff:
  "section_ok (map ((!) bs) (row_idx N r)) \<longleftrightarrow>
   (\<forall>c1 < N. \<forall>c2 < N. c1 \<noteq> c2 \<and> cell_at N bs r c1 \<noteq> 0 \<longrightarrow>
      cell_at N bs r c1 \<noteq> cell_at N bs r c2)"
proof -
  let ?g = "cell_at N bs r"
  have "map ((!) bs) (row_idx N r) = map ?g [0..<N]"
    by (simp add: row_idx_def cell_at_def comp_def)
  then have "section_ok (map ((!) bs) (row_idx N r)) \<longleftrightarrow>
      (\<forall>a \<in> set [0..<N]. \<forall>b \<in> set [0..<N]. a \<noteq> b \<and> ?g a \<noteq> 0 \<longrightarrow> ?g a \<noteq> ?g b)"
    by (simp only: section_ok_map [OF distinct_upt])
  also have "\<dots> \<longleftrightarrow> (\<forall>c1 < N. \<forall>c2 < N. c1 \<noteq> c2 \<and> ?g c1 \<noteq> 0 \<longrightarrow> ?g c1 \<noteq> ?g c2)"
    by (simp add: Ball_def; blast)
  finally show ?thesis .
qed

lemma col_ok_iff:
  "section_ok (map ((!) bs) (col_idx N c)) \<longleftrightarrow>
   (\<forall>r1 < N. \<forall>r2 < N. r1 \<noteq> r2 \<and> cell_at N bs r1 c \<noteq> 0 \<longrightarrow>
      cell_at N bs r1 c \<noteq> cell_at N bs r2 c)"
proof -
  let ?g = "\<lambda>r. cell_at N bs r c"
  have "map ((!) bs) (col_idx N c) = map ?g [0..<N]"
    by (simp add: col_idx_def cell_at_def comp_def)
  then have "section_ok (map ((!) bs) (col_idx N c)) \<longleftrightarrow>
      (\<forall>a \<in> set [0..<N]. \<forall>b \<in> set [0..<N]. a \<noteq> b \<and> ?g a \<noteq> 0 \<longrightarrow> ?g a \<noteq> ?g b)"
    by (simp only: section_ok_map [OF distinct_upt])
  also have "\<dots> \<longleftrightarrow> (\<forall>r1 < N. \<forall>r2 < N. r1 \<noteq> r2 \<and> ?g r1 \<noteq> 0 \<longrightarrow> ?g r1 \<noteq> ?g r2)"
    by (simp add: Ball_def; blast)
  finally show ?thesis .
qed

lemma quadrant_ok_iff:
  assumes "side N = s"
  shows "section_ok (map ((!) bs) (quadrant_idx N x y)) \<longleftrightarrow>
   (\<forall>i1 < s. \<forall>j1 < s. \<forall>i2 < s. \<forall>j2 < s.
      (i1, j1) \<noteq> (i2, j2) \<and> cell_at N bs (s * x + i1) (s * y + j1) \<noteq> 0 \<longrightarrow>
      cell_at N bs (s * x + i1) (s * y + j1) \<noteq> cell_at N bs (s * x + i2) (s * y + j2))"
proof -
  let ?g = "\<lambda>(i, j). cell_at N bs (s * x + i) (s * y + j)"
  have idx: "s * (x * N + y) + (i * N + j) = (s * x + i) * N + (s * y + j)" for i j
    by (simp add: algebra_simps)
  have "map ((!) bs) (quadrant_idx N x y) = map ?g (List.product [0..<s] [0..<s])"
    unfolding quadrant_idx_def assms concat_map_product
    by (simp add: cell_at_def idx split_def comp_def)
  moreover have "distinct (List.product [0..<s] [0..<s])"
    by (simp add: distinct_product)
  ultimately have "section_ok (map ((!) bs) (quadrant_idx N x y)) \<longleftrightarrow>
      (\<forall>a \<in> set (List.product [0..<s] [0..<s]). \<forall>b \<in> set (List.product [0..<s] [0..<s]).
         a \<noteq> b \<and> ?g a \<noteq> 0 \<longrightarrow> ?g a \<noteq> ?g b)"
    using section_ok_map [of "List.product [0..<s] [0..<s]" ?g] by simp
  also have "\<dots> \<longleftrightarrow> (\<forall>i1 < s. \<forall>j1 < s. \<forall>i2 < s. \<forall>j2 < s.
      (i1, j1) \<noteq> (i2, j2) \<and> cell_at N bs (s * x + i1) (s * y + j1) \<noteq> 0 \<longrightarrow>
      cell_at N bs (s * x + i1) (s * y + j1) \<noteq> cell_at N bs (s * x + i2) (s * y + j2))"
    by (simp add: Ball_def) blast
  finally show ?thesis .
qed

lemma side_one: "side (Suc 0) = 0"
  by (simp add: side_def isqrt_def isqrt_loop.simps size_t_def)

lemma side_zero: "side 0 = 0"
  by (simp add: side_def isqrt_def isqrt_loop.simps)

text \<open>
  On a board of side \<open>s * s\<close> the validity that \<open>isValid\<close> computes is the validity of the
  puzzle.  For \<open>s = 1\<close> the source's \<open>isqrt\<close> gives \<open>side = 0\<close> and no quadrant is checked;
  the single block of one cell has no two different cells.
\<close>

lemma valid_board_sudoku:
  assumes "s * s < 2 ^ 31"
  shows "valid_board (s * s) bs \<longleftrightarrow> sudoku_valid s bs"
proof -
  let ?N = "s * s"
  let ?blocks = "\<forall>x < s. \<forall>y < s. \<forall>i1 < s. \<forall>j1 < s. \<forall>i2 < s. \<forall>j2 < s.
        (i1, j1) \<noteq> (i2, j2) \<and> cell_at ?N bs (s * x + i1) (s * y + j1) \<noteq> 0 \<longrightarrow>
        cell_at ?N bs (s * x + i1) (s * y + j1) \<noteq> cell_at ?N bs (s * x + i2) (s * y + j2)"
  have "(\<forall>x < side ?N. \<forall>y < side ?N. section_ok (map ((!) bs) (quadrant_idx ?N x y))) \<longleftrightarrow> ?blocks"
  proof (cases "2 \<le> s")
    case True
    from side_of_square [OF True assms] have "side ?N = s" .
    with quadrant_ok_iff [OF this, of bs] show ?thesis by simp
  next
    case False
    then have "s = 0 \<or> s = 1" by arith
    then show ?thesis by (auto simp: side_one side_zero)
  qed
  then show ?thesis
    by (simp add: valid_board_def sudoku_valid_def row_ok_iff col_ok_iff)
qed

lemma isValid_sudoku:
  assumes "N = s * s" and "wf_board N B"
  shows "isValid N B = Inr (sudoku_valid s (boardState B))"
proof -
  from assms have "s * s < 2 ^ 31" by (simp add: wf_board_def)
  from valid_board_sudoku [OF this, of "boardState B"] isValid_eq [OF assms(2)] assms(1)
  show ?thesis by simp
qed

lemma isComplete_sudoku:
  assumes "wf_board N B"
  shows "isComplete N B = Inr (0 \<notin> set (boardState B))"
proof -
  from assms have "length (boardState B) = N * N" by (simp add: wf_board_def)
  then have "(\<forall>k < N * N. boardState B ! k \<noteq> 0) \<longleftrightarrow> 0 \<notin> set (boardState B)"
    by (auto simp: in_set_conv_nth)
  with isComplete_eq [OF assms] show ?thesis by simp
qed

lemma solution_of_sudoku:
  assumes "N = s * s"
  shows "solution_of N B S \<longleftrightarrow>
    wf_board N S \<and> sudoku_valid s (boardState S) \<and> 0 \<notin> set (boardState S) \<and> keeps_clues B S"
proof (cases "wf_board N S")
  case True
  from isValid_sudoku [OF assms True] isComplete_sudoku [OF True] True show ?thesis
    by (auto simp: solution_of_def isSolved_def)
next
  case False
  then show ?thesis by (simp add: solution_of_def)
qed

text \<open>
  C1.  Let \<open>N = s * s\<close> and let \<open>B\<close> be a well-formed board of dimension \<open>N\<close> (\<open>N * N\<close>
  cells between \<open>0\<close> and \<open>N\<close>).  If some grid \<open>S\<close> obeys the rules of the puzzle (no
  non-zero value twice in a row, a column or an \<open>s\<close> by \<open>s\<close> block), has no empty cell and
  agrees with \<open>B\<close> on the non-zero cells of \<open>B\<close>, then \<open>solve\<close> returns a grid \<open>R\<close> that
  obeys the rules, has no empty cell and agrees with \<open>B\<close> on the non-zero cells of \<open>B\<close>;
  and \<open>R\<close> is the first of all such grids in the lexicographic order of the row-major
  cell lists, which is the solution reached by filling the first empty cell with the
  candidates \<open>1, ..., N\<close> in ascending order.  \<open>solve\<close> is a function of the board, so the
  result is determined by the input.
\<close>

theorem solve_first_solution:
  assumes "N = s * s" and "wf_board N B"
    and "wf_board N S" and "sudoku_valid s (boardState S)" and "0 \<notin> set (boardState S)"
    and "keeps_clues B S"
  shows "\<exists>R. solve N B = Inr R
    \<and> wf_board N R \<and> sudoku_valid s (boardState R) \<and> 0 \<notin> set (boardState R)
    \<and> isSolved N R = Inr True
    \<and> keeps_clues B R
    \<and> (\<forall>S'. wf_board N S' \<and> sudoku_valid s (boardState S') \<and> 0 \<notin> set (boardState S')
              \<and> keeps_clues B S'
          \<longrightarrow> lex_le (boardState R) (boardState S'))"
proof -
  note sol = solution_of_sudoku [OF assms(1)]
  from assms(3-6) have "\<exists>S. solution_of N B S"
    unfolding sol by blast
  with solve_meets_spec [OF assms(2)] obtain R where
    R: "solve N B = Inr R" "first_solution N B R"
    by (auto simp: solve_spec_def)
  from R(2) have s: "solution_of N B R"
    and least: "\<forall>S'. solution_of N B S' \<longrightarrow> lex_le (boardState R) (boardState S')"
    by (simp_all add: first_solution_def)
  from s have solved: "isSolved N R = Inr True" by (simp add: solution_of_def)
  from s [unfolded sol] least [unfolded sol] R(1) solved show ?thesis by blast
qed

theorem solve_first_solution_witness:
  "solve 4 \<lparr>boardState = [1, 2, 3, 4, 3, 4, 1, 2, 0, 0, 0, 0, 0, 0, 0, 0]\<rparr> =
     Inr \<lparr>boardState = [1, 2, 3, 4, 3, 4, 1, 2, 2, 1, 4, 3, 4, 3, 2, 1]\<rparr>
   \<and> sudoku_valid 2 [1, 2, 3, 4, 3, 4, 1, 2, 2, 1, 4, 3, 4, 3, 2, 1]
   \<and> sudoku_valid 2 [1, 2, 3, 4, 3, 4, 1, 2, 4, 3, 2, 1, 2, 1, 4, 3]
   \<and> lex_le [1, 2, 3, 4, 3, 4, 1, 2, 2, 1, 4, 3, 4, 3, 2, 1]
             [1, 2, 3, 4, 3, 4, 1, 2, 4, 3, 2, 1, 2, 1, 4, 3]"
proof -
  let ?B = "\<lparr>boardState = [1, 2, 3, 4, 3, 4, 1, 2, 0, 0, 0, 0, 0, 0, 0, 0 :: nat]\<rparr>"
  let ?R = "\<lparr>boardState = [1, 2, 3, 4, 3, 4, 1, 2, 2, 1, 4, 3, 4, 3, 2, 1 :: nat]\<rparr>"
  let ?S = "\<lparr>boardState = [1, 2, 3, 4, 3, 4, 1, 2, 4, 3, 2, 1, 2, 1, 4, 3 :: nat]\<rparr>"
  have N: "(4::nat) = 2 * 2" by simp
  have B: "wf_board 4 ?B" by (simp add: wf_board_def)
  have S: "wf_board 4 ?S" "keeps_clues ?B ?S"
    by (simp_all add: wf_board_def keeps_clues_list_all2)
  have valid: "sudoku_valid 2 (boardState ?S)"
    by (simp add: sudoku_valid_def cell_at_def numeral_eq_Suc All_less_Suc)
  have full: "0 \<notin> set (boardState ?S)" by simp
  have run: "solve 4 ?B = Inr ?R"
    by (simp add: board_eval solve.simps)
  from solve_first_solution [OF N B S(1) valid full S(2)] run S valid full
  have "sudoku_valid 2 (boardState ?R) \<and> lex_le (boardState ?R) (boardState ?S)" by auto
  with run valid show ?thesis by simp
qed

section \<open>Termination and the recursion of solve\<close>

text \<open>
  The boards on which \<open>solve N B\<close> can call itself: none if \<open>B\<close> is invalid or has no
  empty cell, otherwise the boards \<open>put\<close> returns for the candidates \<open>1, ..., N\<close> at the
  cell \<open>next\<close> returns.  (The loop stops at the first candidate that succeeds, so the calls
  actually made are an initial part of this list.)
\<close>

definition solve_children :: "nat \<Rightarrow> GenSudoku \<Rightarrow> GenSudoku list" where
  "solve_children N B =
     (case isValid N B of
        Inl e \<Rightarrow> []
      | Inr valid \<Rightarrow>
          if \<not> valid then []
          else (case next_cell N B of
                  Inl e \<Rightarrow> []
                | Inr (x, y) \<Rightarrow>
                    if x = SIZE_MAX then []
                    else concat (map (\<lambda>i. case put N B x y i of
                                               Inl e \<Rightarrow> []
                                             | Inr (tmp, ns) \<Rightarrow> [ns])
                                   [1..<N + 1])))"

definition solve_calls :: "nat \<Rightarrow> GenSudoku \<Rightarrow> GenSudoku \<Rightarrow> bool" where
  "solve_calls N B C \<longleftrightarrow> C \<in> set (solve_children N B)"

lemma length_concat_le:
  "(\<And>x. x \<in> set xs \<Longrightarrow> length (f x) \<le> 1) \<Longrightarrow> length (concat (map f xs)) \<le> length xs"
proof (induction xs)
  case Nil
  show ?case by simp
next
  case (Cons x xs)
  from Cons.prems [of x] have "length (f x) \<le> 1" by simp
  moreover from Cons have "length (concat (map f xs)) \<le> length xs" by simp
  ultimately show ?case by simp
qed

lemma in_concat_map: "c \<in> set (concat (map f xs)) \<Longrightarrow> \<exists>i \<in> set xs. c \<in> set (f i)"
  by auto

lemma solve_children_length: "length (solve_children N B) \<le> N"
proof -
  have "length (concat (map (\<lambda>i. case put N B x y i of Inl e \<Rightarrow> [] | Inr (tmp, ns) \<Rightarrow> [ns])
      [1..<N + 1])) \<le> length [1..<N + 1]" for x y
    by (rule length_concat_le) (simp split: sum.splits prod.splits)
  then show ?thesis
    by (simp add: solve_children_def split: sum.splits prod.splits del: upt_Suc)
qed

lemma solve_children_step:
  assumes wf: "wf_board N B" and C: "C \<in> set (solve_children N B)"
  shows "\<exists>k i. k < N * N \<and> boardState B ! k = 0 \<and> (\<forall>j < k. boardState B ! j \<noteq> 0)
           \<and> 1 \<le> i \<and> i \<le> N \<and> C = child B k i"
proof -
  obtain x y i tmp where c: "next_cell N B = Inr (x, y)" "x \<noteq> SIZE_MAX"
    "i \<in> set [1..<N + 1]" "put N B x y i = Inr (tmp, C)"
  proof (cases "isValid N B")
    case (Inl e)
    with C show ?thesis by (simp add: solve_children_def)
  next
    case valid: (Inr v)
    show ?thesis
    proof (cases "next_cell N B")
      case (Inl e)
      with valid C show ?thesis by (simp add: solve_children_def split: if_splits)
    next
      case (Inr p)
      obtain x y where p: "p = (x, y)" by (cases p)
      let ?f = "\<lambda>i. case put N B x y i of Inl e \<Rightarrow> [] | Inr (tmp, ns) \<Rightarrow> [ns]"
      from valid Inr p C have x: "x \<noteq> SIZE_MAX" and "C \<in> set (concat (map ?f [1..<N + 1]))"
        by (simp_all add: solve_children_def split: if_splits del: upt_Suc)
      from in_concat_map [OF this(2)] obtain i where i: "i \<in> set [1..<N + 1]" "C \<in> set (?f i)"
        by blast
      from i(2) obtain tmp where "put N B x y i = Inr (tmp, C)"
        by (cases "put N B x y i") (auto split: prod.splits)
      with Inr p x i(1) show ?thesis by (intro that [of x y i tmp]) simp_all
    qed
  qed
  from c(3) have i: "1 \<le> i \<and> i \<le> N" by (simp only: candidates_iff)
  have "\<not> (\<forall>k < N * N. boardState B ! k \<noteq> 0)"
  proof
    assume "\<forall>k < N * N. boardState B ! k \<noteq> 0"
    with isComplete_eq [OF wf] have "isComplete N B = Inr True" by simp
    from next_cell_complete [OF this] c(1,2) show False by simp
  qed
  from first_zero_exists [OF this] obtain k where k: "k < N * N" "boardState B ! k = 0"
    "\<forall>j < k. boardState B ! j \<noteq> 0" by blast
  from next_cell_first [OF wf k] c(1) have xy: "x = k div N" "y = k mod N" by simp_all
  from index_split [OF k(1)] xy have "x < N" "y < N" "x * N + y = k" by simp_all
  with put_child [OF wf, of x y i] c(4) have "C = child B k i" by simp
  with k i show ?thesis by blast
qed

lemma solve_children_smaller:
  assumes wf: "wf_board N B" and C: "C \<in> set (solve_children N B)"
  shows "wf_board N C \<and> zeros C < zeros B"
proof -
  from solve_children_step [OF wf C] obtain k i where s: "k < N * N" "boardState B ! k = 0"
    "1 \<le> i" "i \<le> N" "C = child B k i" by blast
  from wf s(1) have "k < length (boardState B)" by (simp add: wf_board_def)
  from zeros_child [OF this s(2), of i] wf_child [OF wf s(4), of k] s(3,5)
  show ?thesis by simp
qed

lemma solve_calls_depth:
  assumes "(solve_calls N ^^ n) B C" and "wf_board N B"
  shows "wf_board N C \<and> zeros C + n \<le> zeros B"
  using assms
proof (induction n arbitrary: C)
  case 0
  then show ?case by simp
next
  case (Suc n)
  from Suc.prems(1) obtain M where M: "(solve_calls N ^^ n) B M" "solve_calls N M C"
    by auto
  from Suc.IH [OF M(1) Suc.prems(2)] have m: "wf_board N M" "zeros M + n \<le> zeros B"
    by simp_all
  from M(2) have "C \<in> set (solve_children N M)" by (simp add: solve_calls_def)
  from solve_children_smaller [OF m(1) this] m(2) show ?case by simp
qed

lemma solve_returns:
  assumes "wf_board N B"
  shows "\<exists>R. solve N B = Inr R \<and> (R = B \<or> isSolved N R = Inr True)"
proof (cases "\<exists>S. solution_of N B S")
  case True
  with solve_meets_spec [OF assms] obtain R where "solve N B = Inr R" "first_solution N B R"
    by (auto simp: solve_spec_def)
  then show ?thesis by (auto simp: first_solution_def solution_of_def)
next
  case False
  with solve_meets_spec [OF assms] show ?thesis by (simp add: solve_spec_def)
qed

text \<open>
  C9.  On every well-formed board \<open>solve\<close> returns: either the board itself (the search is
  exhausted, or the board was invalid or already complete) or a solved board.  Every
  recursive call is on the board with the first empty cell set to a digit between \<open>1\<close>
  and \<open>N\<close>, so it has fewer empty cells; there are at most \<open>N\<close> such calls per board, and a
  chain of \<open>n\<close> nested calls needs \<open>n\<close> empty cells, of which there are at most \<open>N * N\<close>.
\<close>

theorem solve_terminates:
  assumes "wf_board N B"
  shows "(\<exists>R. solve N B = Inr R \<and> (R = B \<or> isSolved N R = Inr True))
    \<and> zeros B \<le> N * N
    \<and> length (solve_children N B) \<le> N
    \<and> (\<forall>C. solve_calls N B C \<longrightarrow>
          wf_board N C \<and> zeros C < zeros B \<and>
          (\<exists>k i. k < N * N \<and> boardState B ! k = 0 \<and> (\<forall>j < k. boardState B ! j \<noteq> 0)
             \<and> 1 \<le> i \<and> i \<le> N \<and> boardState C = (boardState B)[k := i]))
    \<and> (\<forall>n C. (solve_calls N ^^ n) B C \<longrightarrow> n \<le> zeros B \<and> n \<le> N * N)"
proof -
  have z: "zeros B \<le> N * N"
    using assms count_le_length [of "boardState B" 0] by (simp add: zeros_def wf_board_def)
  have step: "wf_board N C \<and> zeros C < zeros B \<and>
          (\<exists>k i. k < N * N \<and> boardState B ! k = 0 \<and> (\<forall>j < k. boardState B ! j \<noteq> 0)
             \<and> 1 \<le> i \<and> i \<le> N \<and> boardState C = (boardState B)[k := i])"
    if "solve_calls N B C" for C
  proof -
    from that have C: "C \<in> set (solve_children N B)" by (simp add: solve_calls_def)
    from solve_children_step [OF assms C] obtain k i where s: "k < N * N"
      "boardState B ! k = 0" "\<forall>j < k. boardState B ! j \<noteq> 0" "1 \<le> i" "i \<le> N"
      "C = child B k i" by blast
    from s(6) have "boardState C = (boardState B)[k := i]" by (simp add: child_def)
    with s(1-5) have
      "\<exists>k i. k < N * N \<and> boardState B ! k = 0 \<and> (\<forall>j < k. boardState B ! j \<noteq> 0)
             \<and> 1 \<le> i \<and> i \<le> N \<and> boardState C = (boardState B)[k := i]"
      by blast
    with solve_children_smaller [OF assms C] show ?thesis by simp
  qed
  have depth: "n \<le> zeros B \<and> n \<le> N * N" if "(solve_calls N ^^ n) B C" for n C
    using solve_calls_depth [OF that assms] z by simp
  from solve_returns [OF assms] z solve_children_length [of N B] step depth
  show ?thesis by blast
qed

text \<open>
  The list of children covers the recursion of the definition: wherever the
  definition of \<open>solve\<close> and its loop calls \<open>solve\<close> again (the call relation the function
  definition generates), the argument is one of the children.
\<close>

lemma solve_children_member:
  assumes "isValid N B = Inr True" and "next_cell N B = Inr (x, y)" and "x \<noteq> SIZE_MAX"
    and "i \<in> set [1..<N + 1]" and "put N B x y i = Inr (tmp, C)"
  shows "solve_calls N B C"
proof -
  let ?f = "\<lambda>i. case put N B x y i of Inl e \<Rightarrow> [] | Inr (tmp, ns) \<Rightarrow> [ns]"
  from assms(5) have "C \<in> set (?f i)" by simp
  with assms(4) have "C \<in> set (concat (map ?f [1..<N + 1]))"
    by (simp only: set_concat set_map) blast
  with assms(1-3) show ?thesis
    by (simp add: solve_calls_def solve_children_def del: upt_Suc)
qed

lemma solve_rel_enter:
  assumes "solve_solve_loop_rel (Inr (N', B', x, y, js)) (Inl (N, B))"
  shows "N' = N \<and> B' = B \<and> js = [1..<N + 1] \<and> isValid N B = Inr True
    \<and> next_cell N B = Inr (x, y) \<and> x \<noteq> SIZE_MAX"
  using assms by (cases rule: solve_solve_loop_rel.cases) auto

lemma solve_rel_iterate:
  assumes "solve_solve_loop_rel (Inr (N', B', x', y', js')) (Inr (N, B, x, y, js))"
  shows "N' = N \<and> B' = B \<and> x' = x \<and> y' = y \<and> (\<exists>i. js = i # js')"
  using assms by (cases rule: solve_solve_loop_rel.cases) auto

lemma solve_rel_call:
  assumes "solve_solve_loop_rel (Inl (N', C)) (Inr (N, B, x, y, js))"
  shows "N' = N \<and> (\<exists>i is tmp. js = i # is \<and> put N B x y i = Inr (tmp, C))"
  using assms by (cases rule: solve_solve_loop_rel.cases) auto

lemma solve_calls_cover:
  assumes "solve_solve_loop_rel (Inr (N, B, x, y, is0)) (Inl (N, B))"
    and "is0 = before @ js"
    and "solve_solve_loop_rel (Inl (N', C)) (Inr (N, B, x, y, js))"
  shows "N' = N \<and> solve_calls N B C"
proof -
  from solve_rel_enter [OF assms(1)] have e: "is0 = [1..<N + 1]" "isValid N B = Inr True"
    "next_cell N B = Inr (x, y)" "x \<noteq> SIZE_MAX" by simp_all
  from solve_rel_call [OF assms(3)] obtain i "is" tmp where c: "N' = N" "js = i # is"
    "put N B x y i = Inr (tmp, C)" by blast
  from assms(2) c(2) e(1) have "i \<in> set [1..<N + 1]"
    by (auto simp del: upt_Suc)
  from solve_children_member [OF e(2-4) this c(3)] c(1) show ?thesis by simp
qed

theorem solve_terminates_witness:
  "(\<exists>R. solve 4 \<lparr>boardState = [1, 2, 3, 4, 3, 4, 1, 2, 2, 1, 4, 3, 4, 3, 0, 0]\<rparr> = Inr R
       \<and> (R = \<lparr>boardState = [1, 2, 3, 4, 3, 4, 1, 2, 2, 1, 4, 3, 4, 3, 0, 0]\<rparr>
            \<or> isSolved 4 R = Inr True))
   \<and> zeros \<lparr>boardState = [1, 2, 3, 4, 3, 4, 1, 2, 2, 1, 4, 3, 4, 3, 0, 0]\<rparr> \<le> 4 * 4
   \<and> length (solve_children 4 \<lparr>boardState = [1, 2, 3, 4, 3, 4, 1, 2, 2, 1, 4, 3, 4, 3, 0, 0]\<rparr>) \<le> 4
   \<and> solve_calls 4 \<lparr>boardState = [1, 2, 3, 4, 3, 4, 1, 2, 2, 1, 4, 3, 4, 3, 0, 0]\<rparr>
        \<lparr>boardState = [1, 2, 3, 4, 3, 4, 1, 2, 2, 1, 4, 3, 4, 3, 2, 0]\<rparr>
   \<and> zeros \<lparr>boardState = [1, 2, 3, 4, 3, 4, 1, 2, 2, 1, 4, 3, 4, 3, 2, 0]\<rparr>
       < zeros \<lparr>boardState = [1, 2, 3, 4, 3, 4, 1, 2, 2, 1, 4, 3, 4, 3, 0, 0]\<rparr>"
proof -
  let ?B = "\<lparr>boardState = [1, 2, 3, 4, 3, 4, 1, 2, 2, 1, 4, 3, 4, 3, 0, 0 :: nat]\<rparr>"
  let ?C = "\<lparr>boardState = [1, 2, 3, 4, 3, 4, 1, 2, 2, 1, 4, 3, 4, 3, 2, 0 :: nat]\<rparr>"
  have wf: "wf_board 4 ?B" by (simp add: wf_board_def)
  have "solve_children 4 ?B =
      [\<lparr>boardState = [1, 2, 3, 4, 3, 4, 1, 2, 2, 1, 4, 3, 4, 3, 1, 0]\<rparr>,
       \<lparr>boardState = [1, 2, 3, 4, 3, 4, 1, 2, 2, 1, 4, 3, 4, 3, 2, 0]\<rparr>,
       \<lparr>boardState = [1, 2, 3, 4, 3, 4, 1, 2, 2, 1, 4, 3, 4, 3, 3, 0]\<rparr>,
       \<lparr>boardState = [1, 2, 3, 4, 3, 4, 1, 2, 2, 1, 4, 3, 4, 3, 4, 0]\<rparr>]"
    by (simp add: solve_children_def board_eval)
  then have call: "solve_calls 4 ?B ?C" by (simp add: solve_calls_def)
  from solve_terminates [OF wf] call show ?thesis by blast
qed

section \<open>The clues are kept\<close>

text \<open>
  C7.  Whatever board \<open>solve\<close> returns has the size of the input and agrees with it on
  every cell that is non-zero in the input: only empty cells are ever overwritten (one
  per recursive step, see \<open>solve_calls\<close> above).  On a well-formed board \<open>solve\<close> does
  return a board.
\<close>

theorem solve_preserves_clues:
  "(solve N B = Inr R \<longrightarrow>
      length (boardState R) = length (boardState B) \<and>
      (\<forall>k < length (boardState B).
          boardState B ! k \<noteq> 0 \<longrightarrow> boardState R ! k = boardState B ! k))
   \<and> (wf_board N B \<longrightarrow> (\<exists>R'. solve N B = Inr R'))"
proof -
  have "length (boardState R) = length (boardState B) \<and>
      (\<forall>k < length (boardState B).
          boardState B ! k \<noteq> 0 \<longrightarrow> boardState R ! k = boardState B ! k)"
    if "solve N B = Inr R"
    using solve_result(1) [of N B] that by (simp add: keeps_clues_def)
  moreover have "\<exists>R'. solve N B = Inr R'" if "wf_board N B"
    using solve_returns [OF that] by blast
  ultimately show ?thesis by blast
qed

theorem solve_preserves_clues_witness:
  "solve 4 \<lparr>boardState = [1, 2, 3, 4, 3, 4, 1, 2, 2, 1, 4, 3, 4, 3, 0, 0]\<rparr> =
     Inr \<lparr>boardState = [1, 2, 3, 4, 3, 4, 1, 2, 2, 1, 4, 3, 4, 3, 2, 1]\<rparr>
   \<and> length [1, 2, 3, 4, 3, 4, 1, 2, 2, 1, 4, 3, 4, 3, 2, 1 :: nat] =
       length [1, 2, 3, 4, 3, 4, 1, 2, 2, 1, 4, 3, 4, 3, 0, 0 :: nat]
   \<and> [1, 2, 3, 4, 3, 4, 1, 2, 2, 1, 4, 3, 4, 3, 2, 1 :: nat] ! 13 =
       [1, 2, 3, 4, 3, 4, 1, 2, 2, 1, 4, 3, 4, 3, 0, 0 :: nat] ! 13
   \<and> wf_board 4 \<lparr>boardState = [1, 2, 3, 4, 3, 4, 1, 2, 2, 1, 4, 3, 4, 3, 0, 0]\<rparr>"
proof -
  let ?B = "\<lparr>boardState = [1, 2, 3, 4, 3, 4, 1, 2, 2, 1, 4, 3, 4, 3, 0, 0 :: nat]\<rparr>"
  let ?R = "\<lparr>boardState = [1, 2, 3, 4, 3, 4, 1, 2, 2, 1, 4, 3, 4, 3, 2, 1 :: nat]\<rparr>"
  have run: "solve 4 ?B = Inr ?R"
    by (simp add: board_eval solve.simps)
  have wf: "wf_board 4 ?B" by (simp add: wf_board_def)
  from solve_preserves_clues [of 4 ?B ?R] run wf show ?thesis by simp
qed

end
